theory Spec2Isabelle
  imports Main
begin

section \<open>Strings as the program sees them\<close>

text \<open>
  A JavaScript string is a sequence of code units; it is modelled as a \<^typ>\<open>string\<close>
  (a list of 8-bit characters), so \<open>length\<close> is \<open>.length\<close>. Code units above
  \<open>0xFF\<close> are outside the model.
\<close>

abbreviation NL :: char where "NL \<equiv> CHR 0x0A"
abbreviation CR :: char where "CR \<equiv> CHR 0x0D"
abbreviation HASH :: char where "HASH \<equiv> CHR ''#''"

text \<open>The characters matched by \<open>\s\<close> and removed by \<open>trim()\<close>.\<close>

definition isWhiteSpace :: "char \<Rightarrow> bool" where
  "isWhiteSpace c = (c \<in> set [CHR 0x09, CHR 0x0A, CHR 0x0B, CHR 0x0C, CHR 0x0D, CHR 0x20, CHR 0xA0])"

text \<open>
  The line terminators, which \<open>.\<close> does not match: the line feed and the carriage
  return. The two others, U+2028 and U+2029, are code units above \<open>0xFF\<close>: a text of
  the model is a text without them.
\<close>

definition isLineTerminator :: "char \<Rightarrow> bool" where
  "isLineTerminator c = (c = NL \<or> c = CR)"

definition trim :: "string \<Rightarrow> string" where
  "trim s = rev (dropWhile isWhiteSpace (rev (dropWhile isWhiteSpace s)))"

definition startsWith :: "string \<Rightarrow> string \<Rightarrow> bool" where
  "startsWith s p = (take (length p) s = p)"

text \<open>\<open>Array.prototype.join\<close>.\<close>

fun join :: "string \<Rightarrow> string list \<Rightarrow> string" where
  "join sep [] = []"
| "join sep [x] = x"
| "join sep (x # y # ys) = x @ sep @ join sep (y # ys)"

text \<open>
  \<open>String.prototype.split\<close> with a string separator: the occurrences of the separator
  are found from left to right without overlap; the empty separator splits into code units.
\<close>

function splitOn :: "string \<Rightarrow> string \<Rightarrow> string list" where
  "splitOn sep s =
     (if sep = [] then map (\<lambda>c. [c]) s
      else if s = [] then [[]]
      else if startsWith s sep then [] # splitOn sep (drop (length sep) s)
      else (case splitOn sep (tl s) of
              [] \<Rightarrow> [[hd s]]
            | l # ls \<Rightarrow> (hd s # l) # ls))"
  by pat_completeness auto
termination
  by (relation "measure (\<lambda>(sep, s). length s)") auto

declare splitOn.simps [simp del]

text \<open>
  Lower-casing of the code units of the model (the letters of ASCII and of Latin-1), which
  keeps the length of the string.
\<close>

definition lowerChar :: "char \<Rightarrow> char" where
  "lowerChar c =
     (let n = (of_char c :: nat)
      in if (65 \<le> n \<and> n \<le> 90) \<or> (192 \<le> n \<and> n \<le> 222 \<and> n \<noteq> 215)
         then char_of (n + 32) else c)"

definition toLowerCase :: "string \<Rightarrow> string" where
  "toLowerCase s = map lowerChar s"

text \<open>\<open>s.includes(t)\<close>: \<open>t\<close> occurs in \<open>s\<close> as a contiguous substring.\<close>

definition includesStr :: "string \<Rightarrow> string \<Rightarrow> bool" where
  "includesStr s t = list_ex (\<lambda>i. startsWith (drop i s) t) [0..<Suc (length s)]"

section \<open>Heading lines\<close>

text \<open>
  The regular expression \<open>/^(#+)\s+(.+)$/\<close> on one line: a run of hashes, then white
  space, then a non-empty rest without line terminators up to the end of the string. The
  hashes cannot be shared with \<open>\s+\<close>, so group 1 is the whole leading run. \<open>\s+\<close>
  is greedy: it takes the whole run of white space when something follows it, and gives
  back one character when the white space reaches the end of the line. The result is
  (group 1, group 2).
\<close>

definition headingMatch :: "string \<Rightarrow> (string \<times> string) option" where
  "headingMatch line =
     (let hashes = takeWhile (\<lambda>c. c = HASH) line;
          r = dropWhile (\<lambda>c. c = HASH) line;
          ws = takeWhile isWhiteSpace r;
          rest = dropWhile isWhiteSpace r
      in if hashes = [] \<or> ws = [] then None
         else if rest \<noteq> [] then
           (if list_ex isLineTerminator rest then None else Some (hashes, rest))
         else if 2 \<le> length ws \<and> \<not> isLineTerminator (last ws) then Some (hashes, [last ws])
         else None)"

text \<open>The regular expression \<open>/^#+\s/\<close> used by the paginator.\<close>

definition isHeading :: "string \<Rightarrow> bool" where
  "isHeading paragraph =
     (let r = dropWhile (\<lambda>c. c = HASH) paragraph
      in takeWhile (\<lambda>c. c = HASH) paragraph \<noteq> [] \<and> r \<noteq> [] \<and> isWhiteSpace (hd r))"

section \<open>Synthesis of the body\<close>

datatype OutlineItem =
  OutlineItem (title: string) (page: "nat option") (level: nat) (children: "OutlineItem list")

record FlatSection =
  sec_title :: string
  sec_level :: nat
  startPage :: nat
  endPage :: nat

text \<open>\<open>if (item.page)\<close>: the page is present and not zero.\<close>

definition hasPage :: "OutlineItem \<Rightarrow> bool" where
  "hasPage item = (case page item of None \<Rightarrow> False | Some p \<Rightarrow> p \<noteq> 0)"

text \<open>
  \<open>flattenOutline\<close>, with \<open>n\<close> for \<open>pages.length\<close>. The loop over \<open>items\<close> is the
  recursion on the list; \<open>items[i + 1]\<close> is the head of the remaining items.
\<close>

fun flattenOutline :: "nat \<Rightarrow> OutlineItem list \<Rightarrow> FlatSection list" where
  "flattenOutline n [] = []"
| "flattenOutline n (OutlineItem t p l ch # rest) =
     (if hasPage (OutlineItem t p l ch) then
        [\<lparr>sec_title = t, sec_level = l, startPage = the p,
          endPage = (case rest of
                       [] \<Rightarrow> n
                     | nextItem # _ \<Rightarrow> if hasPage nextItem then the (page nextItem) - 1 else n)\<rparr>]
      else [])
     @ flattenOutline n ch
     @ flattenOutline n rest"

text \<open>
  What the body receives while it is built: the text of a page followed by a blank line,
  or the heading line of a section followed by a blank line.
\<close>

datatype Chunk = PageChunk nat | HeadingChunk FlatSection

text \<open>\<open>if (pages[p - 1]?.trim())\<close>: page \<open>p\<close> exists and is not blank.\<close>

definition nonBlank :: "string list \<Rightarrow> nat \<Rightarrow> bool" where
  "nonBlank pages p = (1 \<le> p \<and> p \<le> length pages \<and> trim (pages ! (p - 1)) \<noteq> [])"

text \<open>The loop \<open>for (p = a; p < b; p++)\<close> that appends the non-blank pages.\<close>

definition pageChunks :: "string list \<Rightarrow> nat \<Rightarrow> nat \<Rightarrow> Chunk list" where
  "pageChunks pages a b = map PageChunk (filter (nonBlank pages) [a..<b])"

text \<open>One round of the loop over the sections; the state is the chunks so far and \<open>lastEndPage\<close>.\<close>

definition emitSection :: "string list \<Rightarrow> FlatSection \<Rightarrow> Chunk list \<times> nat \<Rightarrow> Chunk list \<times> nat" where
  "emitSection pages section st =
     (let (chunks, lastEndPage) = st;
          chunks1 = (if startPage section > lastEndPage + 1
                     then chunks @ pageChunks pages (lastEndPage + 1) (startPage section)
                     else chunks);
          chunks2 = chunks1 @ [HeadingChunk section];
          chunks3 = chunks2 @ pageChunks pages (startPage section) (Suc (endPage section))
      in (chunks3, endPage section))"

text \<open>The chunks appended to \<open>markdown\<close> when the outline is present and not empty.\<close>

definition outlineChunks :: "string list \<Rightarrow> OutlineItem list \<Rightarrow> Chunk list" where
  "outlineChunks pages outline =
     (let sections = sort_key startPage (flattenOutline (length pages) outline);
          (chunks, lastEndPage) = fold (emitSection pages) sections ([], 0)
      in if lastEndPage < length pages
         then chunks @ pageChunks pages (lastEndPage + 1) (Suc (length pages))
         else chunks)"

text \<open>The heading line of a section: \<open>'#'.repeat(section.level + 1)\<close>, a space and the title.\<close>

definition headingLine :: "FlatSection \<Rightarrow> string" where
  "headingLine s = replicate (sec_level s + 1) HASH @ '' '' @ sec_title s"

definition renderChunk :: "string list \<Rightarrow> Chunk \<Rightarrow> string" where
  "renderChunk pages c =
     (case c of
        PageChunk p \<Rightarrow> pages ! (p - 1) @ [NL, NL]
      | HeadingChunk s \<Rightarrow> headingLine s @ [NL, NL])"

definition convertToMarkdown :: "string list \<Rightarrow> OutlineItem list option \<Rightarrow> string" where
  "convertToMarkdown pages outline =
     (case outline of
        None \<Rightarrow> join [NL, NL] pages
      | Some items \<Rightarrow>
          if items = [] then join [NL, NL] pages
          else trim (concat (map (renderChunk pages) (outlineChunks pages items))))"

text \<open>The page numbers and the sections of a list of chunks, in their order.\<close>

definition chunkPages :: "Chunk list \<Rightarrow> nat list" where
  "chunkPages chunks = concat (map (\<lambda>c. case c of PageChunk p \<Rightarrow> [p] | HeadingChunk s \<Rightarrow> []) chunks)"

definition chunkSections :: "Chunk list \<Rightarrow> FlatSection list" where
  "chunkSections chunks = concat (map (\<lambda>c. case c of PageChunk p \<Rightarrow> [] | HeadingChunk s \<Rightarrow> [s]) chunks)"

text \<open>The flattened sections of a document; there are none without an outline.\<close>

definition outlineSections :: "string list \<Rightarrow> OutlineItem list option \<Rightarrow> FlatSection list" where
  "outlineSections pages outline =
     (case outline of None \<Rightarrow> [] | Some items \<Rightarrow> flattenOutline (length pages) items)"

text \<open>
  Sections that do not overlap, read in the order of the emission loop: each one starts
  after the end of the one before it (\<open>lastEnd\<close>), and does not end before the page
  preceding its start.
\<close>

fun disjointSections :: "nat \<Rightarrow> FlatSection list \<Rightarrow> bool" where
  "disjointSections lastEnd [] = True"
| "disjointSections lastEnd (s # ss) =
     (lastEnd < startPage s \<and> startPage s \<le> Suc (endPage s) \<and> disjointSections (endPage s) ss)"

definition nonOverlapping :: "string list \<Rightarrow> OutlineItem list option \<Rightarrow> bool" where
  "nonOverlapping pages outline =
     (case outline of
        None \<Rightarrow> True
      | Some items \<Rightarrow>
          items = [] \<or>
          disjointSections 0 (sort_key startPage (flattenOutline (length pages) items)))"

text \<open>
  A single-level outline in page order: no node has children, every node has a page, the
  pages are strictly increasing, above \<open>lo\<close> and within the \<open>n\<close> pages of the document.
\<close>

fun singleLevelIncreasing :: "nat \<Rightarrow> nat \<Rightarrow> OutlineItem list \<Rightarrow> bool" where
  "singleLevelIncreasing lo n [] = True"
| "singleLevelIncreasing lo n (OutlineItem t p l ch # rest) =
     (ch = [] \<and>
      (case p of None \<Rightarrow> False | Some q \<Rightarrow> lo < q \<and> q \<le> n \<and> singleLevelIncreasing q n rest))"

text \<open>The nodes of an outline in depth-first order, each with its next sibling if it has one.\<close>

fun withNextSibling :: "OutlineItem list \<Rightarrow> (OutlineItem \<times> OutlineItem option) list" where
  "withNextSibling [] = []"
| "withNextSibling (OutlineItem t p l ch # rest) =
     (OutlineItem t p l ch, case rest of [] \<Rightarrow> None | nextItem # _ \<Rightarrow> Some nextItem)
     # withNextSibling ch @ withNextSibling rest"

text \<open>The end page that the next sibling gives a section of a document of \<open>n\<close> pages.\<close>

definition siblingEnd :: "nat \<Rightarrow> OutlineItem option \<Rightarrow> nat" where
  "siblingEnd n nextItem =
     (case nextItem of
        None \<Rightarrow> n
      | Some x \<Rightarrow> if hasPage x then the (page x) - 1 else n)"

text \<open>A single-level outline all of whose nodes have a page.\<close>

definition singleLevelResolved :: "OutlineItem list \<Rightarrow> bool" where
  "singleLevelResolved items = list_all (\<lambda>item. children item = [] \<and> hasPage item) items"

section \<open>The worked example of the synthesis\<close>

definition examplePages :: "string list" where
  "examplePages = [''Intro'', ''Ch1 body'', ''Ch2 body'']"

definition exampleOutline :: "OutlineItem list" where
  "exampleOutline = [OutlineItem ''Chapter 1'' (Some 2) 0 [], OutlineItem ''Chapter 2'' (Some 3) 0 []]"

text \<open>A nested outline: a chapter on page 1 with a subsection on page 2, in two pages.\<close>

definition nestedPages :: "string list" where
  "nestedPages = [''p1'', ''p2'']"

definition nestedOutline :: "OutlineItem list" where
  "nestedOutline = [OutlineItem ''A'' (Some 1) 0 [OutlineItem ''B'' (Some 2) 1 []]]"

text \<open>A chapter on page 1 with a subsection on page 2, followed by a chapter on page 3.\<close>

definition treeOutline :: "OutlineItem list" where
  "treeOutline =
     [OutlineItem ''A'' (Some 1) 0 [OutlineItem ''B'' (Some 2) 1 []],
      OutlineItem ''C'' (Some 3) 0 []]"

section \<open>Pagination\<close>

text \<open>
  The heading lookahead that each of the three branches of the loop ends with:
  \<open>isHeading && nextParagraph && currentPage.length + nextParagraph.length + 2 <= charsPerPage\<close>.
  A missing next paragraph and an empty one are both falsy.
\<close>

definition pullsNext :: "nat \<Rightarrow> string \<Rightarrow> string list \<Rightarrow> string \<Rightarrow> bool" where
  "pullsNext charsPerPage paragraph rest currentPage =
     (isHeading paragraph \<and> rest \<noteq> [] \<and> hd rest \<noteq> []
      \<and> length currentPage + length (hd rest) + 2 \<le> charsPerPage)"

text \<open>
  The loop of \<open>paginateContent\<close> over the paragraphs not yet visited, with the current
  page and the pages closed so far. Pulling the next paragraph (\<open>i++\<close>) skips it.
\<close>

fun paginateLoop :: "nat \<Rightarrow> string list \<Rightarrow> string \<Rightarrow> string list \<Rightarrow> string list" where
  "paginateLoop charsPerPage [] currentPage pages =
     (if length currentPage > 0 then pages @ [currentPage] else pages)"
| "paginateLoop charsPerPage (paragraph # rest) currentPage pages =
     (if length currentPage = 0 then
        (if pullsNext charsPerPage paragraph rest paragraph
         then paginateLoop charsPerPage (tl rest) (paragraph @ [NL, NL] @ hd rest) pages
         else paginateLoop charsPerPage rest paragraph pages)
      else if length currentPage + length paragraph + 2 \<le> charsPerPage then
        (if pullsNext charsPerPage paragraph rest (currentPage @ [NL, NL] @ paragraph)
         then paginateLoop charsPerPage (tl rest)
                (currentPage @ [NL, NL] @ paragraph @ [NL, NL] @ hd rest) pages
         else paginateLoop charsPerPage rest (currentPage @ [NL, NL] @ paragraph) pages)
      else
        (if pullsNext charsPerPage paragraph rest paragraph
         then paginateLoop charsPerPage (tl rest) (paragraph @ [NL, NL] @ hd rest)
                (pages @ [currentPage])
         else paginateLoop charsPerPage rest paragraph (pages @ [currentPage])))"

definition paginateContent :: "string \<Rightarrow> nat \<Rightarrow> string list" where
  "paginateContent content charsPerPage =
     (if length content \<le> charsPerPage then [content]
      else paginateLoop charsPerPage (splitOn [NL, NL] content) [] [])"

section \<open>Worked examples of the pagination\<close>

definition exampleContent :: string where
  "exampleContent = ''# H\<newline>\<newline>abc\<newline>\<newline>defghijklmnop\<newline>\<newline>xy''"

definition gappedContent :: string where
  "gappedContent = ''abc\<newline>\<newline>\<newline>\<newline>def''"

section \<open>The registry and the identifiers\<close>

record LoadedPDF =
  pdf_id :: string
  pdf_path :: string
  pdf_pageCount :: nat
  pdf_markdown :: string
  pdf_metadata :: "(string \<times> string) list option"
  pdf_outline :: "OutlineItem list option"

text \<open>
  \<open>loadedPDFs\<close>, the map from identifiers to loaded documents. The order of its entries
  plays no part in the operations below.
\<close>

type_synonym Registry = "string \<rightharpoonup> LoadedPDF"

text \<open>
  What the program takes from its platform: \<open>path.sep\<close>, \<open>path.normalize\<close>, the
  \<open>pathname\<close> of \<open>new URL(s)\<close> (\<open>None\<close> when the constructor throws), and
  \<open>new RegExp(source, flags)\<close> with the global flag (\<open>None\<close> when the constructor
  throws; the second argument tells whether the search is case sensitive). A compiled
  expression is its \<open>exec\<close>: from a text and \<open>lastIndex\<close> to the index and the text of
  the match found, which leaves \<open>lastIndex\<close> at the end of the match.
\<close>

type_synonym RegExpExec = "string \<Rightarrow> nat \<Rightarrow> (nat \<times> string) option"

record Runtime =
  pathSep :: char
  pathNormalize :: "string \<Rightarrow> string"
  urlPathname :: "string \<Rightarrow> string option"
  regexCompile :: "string \<Rightarrow> bool \<Rightarrow> RegExpExec option"

datatype error =
  PDFNotFound
  | LoadFailed string
  | SectionNotFound string "string list"
  | PageOutOfRange nat nat
  | InvalidRegex string












section \<open>Lookup of a section\<close>

record SectionPage =
  sp_page :: nat
  sp_totalPages :: nat
  sp_content :: string
  sp_section :: string

text \<open>
  The loop of \<open>extractSection\<close> over the lines from index \<open>i\<close> on. The state is
  \<open>sectionStart\<close> (\<open>None\<close> for \<open>-1\<close>), \<open>sectionLevel\<close>, \<open>sectionEnd\<close> and
  \<open>matchedTitle\<close>; \<open>break\<close> returns the state at once.
\<close>

fun headingScan ::
  "string \<Rightarrow> string list \<Rightarrow> nat \<Rightarrow> nat option \<times> nat \<times> nat \<times> string
     \<Rightarrow> nat option \<times> nat \<times> nat \<times> string" where
  "headingScan normalizedQuery [] i st = st"
| "headingScan normalizedQuery (line # rest) i (sectionStart, sectionLevel, sectionEnd, matchedTitle) =
     (case headingMatch line of
        None \<Rightarrow>
          headingScan normalizedQuery rest (Suc i) (sectionStart, sectionLevel, sectionEnd, matchedTitle)
      | Some (hashes, rawTitle) \<Rightarrow>
          (let level = length hashes; title = trim (toLowerCase rawTitle)
           in case sectionStart of
                None \<Rightarrow>
                  if includesStr title normalizedQuery \<or> includesStr normalizedQuery title
                  then headingScan normalizedQuery rest (Suc i) (Some i, level, sectionEnd, rawTitle)
                  else headingScan normalizedQuery rest (Suc i)
                         (sectionStart, sectionLevel, sectionEnd, matchedTitle)
              | Some start \<Rightarrow>
                  if level \<le> sectionLevel
                  then (sectionStart, sectionLevel, i, matchedTitle)
                  else headingScan normalizedQuery rest (Suc i)
                         (sectionStart, sectionLevel, sectionEnd, matchedTitle)))"

text \<open>The titles of the first five heading lines; the query plays no part.\<close>

definition findSimilarSections :: "string \<Rightarrow> string \<Rightarrow> string list" where
  "findSimilarSections md query =
     take 5 (List.map_filter (\<lambda>line. map_option snd (headingMatch line)) (splitOn [NL] md))"

definition extractSection ::
  "Registry \<Rightarrow> string \<Rightarrow> string \<Rightarrow> nat \<Rightarrow> nat \<Rightarrow> error + SectionPage" where
  "extractSection loadedPDFs pdfId sectionTitle pageNo charsPerPage =
     (case loadedPDFs pdfId of
        None \<Rightarrow> Inl PDFNotFound
      | Some pdf \<Rightarrow>
          (let normalizedQuery = trim (toLowerCase sectionTitle);
               lines = splitOn [NL] (pdf_markdown pdf);
               (sectionStart, sectionLevel, sectionEnd, matchedTitle) =
                  headingScan normalizedQuery lines 0 (None, 0, length lines, [])
           in case sectionStart of
                None \<Rightarrow>
                  Inl (SectionNotFound sectionTitle (findSimilarSections (pdf_markdown pdf) sectionTitle))
              | Some start \<Rightarrow>
                  (let fullContent = trim (join [NL] (take (sectionEnd - start) (drop start lines)));
                       pages = paginateContent fullContent charsPerPage
                   in if pageNo < 1 \<or> pageNo > length pages
                      then Inl (PageOutOfRange pageNo (length pages))
                      else Inr \<lparr>sp_page = pageNo, sp_totalPages = length pages,
                                sp_content = pages ! (pageNo - 1),
                                sp_section = matchedTitle\<rparr>)))"

text \<open>
  The section of the first heading as the specification words it. A line does not end a
  section of a given depth when it is no heading line, or a heading line of a greater
  depth; the section of the first heading is made of the first heading line and of the
  lines after it up to, and not including, the next heading line at the same or a
  shallower depth.
\<close>

definition deeperThan :: "nat \<Rightarrow> string \<Rightarrow> bool" where
  "deeperThan sectionLevel line =
     (case headingMatch line of None \<Rightarrow> True | Some (hashes, t) \<Rightarrow> sectionLevel < length hashes)"

definition firstHeadingSection :: "string list \<Rightarrow> string list" where
  "firstHeadingSection lines =
     (case dropWhile (\<lambda>line. headingMatch line = None) lines of
        [] \<Rightarrow> []
      | h # rest \<Rightarrow>
          (case headingMatch h of
             None \<Rightarrow> []
           | Some (hashes, t) \<Rightarrow> h # takeWhile (deeperThan (length hashes)) rest))"

section \<open>Search\<close>

text \<open>The entries of \<open>matches\<close>, and the groups returned.\<close>

record SearchMatch =
  m_text :: string
  m_context :: string
  m_section :: string

record SearchResult =
  r_page :: nat
  r_section :: string
  r_matches :: "(string \<times> string) list"

text \<open>The title of the first heading line of a list of lines.\<close>

fun firstTitle :: "string list \<Rightarrow> string option" where
  "firstTitle [] = None"
| "firstTitle (line # rest) =
     (case headingMatch line of Some (hashes, t) \<Rightarrow> Some t | None \<Rightarrow> firstTitle rest)"

text \<open>
  \<open>findSectionForPosition\<close>: the lines of the text before the position are read from the
  last to the first.
\<close>

definition findSectionForPosition :: "string \<Rightarrow> nat \<Rightarrow> string" where
  "findSectionForPosition md position =
     (case firstTitle (rev (splitOn [NL] (take position md))) of
        Some t \<Rightarrow> t
      | None \<Rightarrow> ''Document Start'')"




text \<open>\<open>s.substring(a, b)\<close> for \<open>a \<le> b\<close>.\<close>

definition substring :: "string \<Rightarrow> nat \<Rightarrow> nat \<Rightarrow> string" where
  "substring s a b = take (b - a) (drop a s)"

text \<open>
  The entry pushed for a match at a position: \<open>matchLength\<close> is \<open>matchedText.length\<close>
  in the regular-expression search and \<open>query.length\<close> in the literal one.
\<close>

definition makeMatch :: "string \<Rightarrow> nat \<Rightarrow> nat \<Rightarrow> nat \<Rightarrow> string \<Rightarrow> SearchMatch" where
  "makeMatch md contextChars position matchLength matchedText =
     (let contextStart = position - contextChars;
          contextEnd = min (length md) (position + matchLength + contextChars)
      in \<lparr>m_text = matchedText,
          m_context = trim (substring md contextStart contextEnd),
          m_section = findSectionForPosition md position\<rparr>)"

text \<open>\<open>maxResults && totalMatches >= maxResults\<close>: a limit of zero is falsy, as is none.\<close>

definition limitReached :: "nat option \<Rightarrow> nat \<Rightarrow> bool" where
  "limitReached maxResults totalMatches =
     (case maxResults of None \<Rightarrow> False | Some k \<Rightarrow> k \<noteq> 0 \<and> totalMatches \<ge> k)"

text \<open>
  \<open>s.indexOf(t, from)\<close>: the first index at or after \<open>from\<close> (clamped to the length)
  where \<open>t\<close> occurs.
\<close>

definition indexOf :: "string \<Rightarrow> string \<Rightarrow> nat \<Rightarrow> nat option" where
  "indexOf s t from =
     List.find (\<lambda>i. startsWith (drop i s) t) [min from (length s)..<Suc (length s)]"

text \<open>
  The loop of the regular-expression search,
  \<open>while ((match = regexPattern.exec(markdown)) !== null)\<close>. \<open>exec\<close> reads
  \<open>lastIndex\<close> and leaves it at the end of the match; after a match of length zero the
  loop moves it one further. The loop may run forever, so it returns an option.
\<close>

partial_function (option) regexLoop ::
  "RegExpExec \<Rightarrow> string \<Rightarrow> nat option \<Rightarrow> nat \<Rightarrow> nat \<Rightarrow> nat \<Rightarrow> SearchMatch list
     \<Rightarrow> SearchMatch list option" where
  "regexLoop exec md maxResults contextChars lastIndex totalMatches matches =
     (case exec md lastIndex of
        None \<Rightarrow> Some matches
      | Some (position, matchedText) \<Rightarrow>
          if limitReached maxResults totalMatches then Some matches
          else regexLoop exec md maxResults contextChars
                 (if position = position + length matchedText
                  then position + length matchedText + 1
                  else position + length matchedText)
                 (totalMatches + 1)
                 (matches @ [makeMatch md contextChars position (length matchedText) matchedText]))"

declare regexLoop.simps [code]

text \<open>
  The loop of the literal search,
  \<open>while ((position = markdownText.indexOf(searchText, position)) !== -1)\<close>:
  \<open>markdownText\<close> and \<open>searchText\<close> are the lower-cased text and query when the search
  is not case sensitive; the position moves on by \<open>query.length\<close>.
\<close>

partial_function (option) literalLoop ::
  "string \<Rightarrow> string \<Rightarrow> string \<Rightarrow> string \<Rightarrow> nat option \<Rightarrow> nat \<Rightarrow> nat \<Rightarrow> nat \<Rightarrow> SearchMatch list
     \<Rightarrow> SearchMatch list option" where
  "literalLoop md markdownText searchText query maxResults contextChars position totalMatches matches =
     (case indexOf markdownText searchText position of
        None \<Rightarrow> Some matches
      | Some found \<Rightarrow>
          if limitReached maxResults totalMatches then Some matches
          else literalLoop md markdownText searchText query maxResults contextChars
                 (found + length query)
                 (totalMatches + 1)
                 (matches @ [makeMatch md contextChars found (length query)
                               (substring md found (found + length query))]))"

declare literalLoop.simps [code]

text \<open>
  \<open>groupedBySection\<close>, a map that keeps the order in which its keys were first set, as an
  association list.
\<close>

fun mapGet :: "('k \<times> 'v) list \<Rightarrow> 'k \<Rightarrow> 'v option" where
  "mapGet [] k = None"
| "mapGet ((k', v) # m) k = (if k' = k then Some v else mapGet m k)"

fun mapSet :: "('k \<times> 'v) list \<Rightarrow> 'k \<Rightarrow> 'v \<Rightarrow> ('k \<times> 'v) list" where
  "mapSet [] k v = [(k, v)]"
| "mapSet ((k', v') # m) k v = (if k' = k then (k, v) # m else (k', v') # mapSet m k v)"

definition addToGroup ::
  "SearchMatch \<Rightarrow> (string \<times> (string \<times> string) list) list \<Rightarrow> (string \<times> (string \<times> string) list) list" where
  "addToGroup m grouped =
     (let sectionMatches = (case mapGet grouped (m_section m) of None \<Rightarrow> [] | Some ms \<Rightarrow> ms)
      in mapSet grouped (m_section m) (sectionMatches @ [(m_text m, m_context m)]))"

definition groupResults :: "SearchMatch list \<Rightarrow> SearchResult list" where
  "groupResults matches =
     (if length matches = 0 then []
      else map (\<lambda>(sec, sectionMatches). \<lparr>r_page = 0, r_section = sec, r_matches = sectionMatches\<rparr>)
               (fold addToGroup matches []))"

text \<open>
  The first part of \<open>searchPDF\<close>, up to the end of the scan: the array \<open>matches\<close>
  in the order in which the entries are pushed, or the error thrown; \<open>None\<close> when the
  scan does not end.
\<close>

definition searchMatches ::
  "Runtime \<Rightarrow> Registry \<Rightarrow> string \<Rightarrow> string \<Rightarrow> bool \<Rightarrow> bool \<Rightarrow> nat option \<Rightarrow> nat
     \<Rightarrow> (error + SearchMatch list) option" where
  "searchMatches rt loadedPDFs pdfId query caseSensitive regex maxResults contextChars =
     (case loadedPDFs pdfId of
        None \<Rightarrow> Some (Inl PDFNotFound)
      | Some pdf \<Rightarrow>
          if regex then
            (case regexCompile rt query caseSensitive of
               None \<Rightarrow> Some (Inl (InvalidRegex query))
             | Some exec \<Rightarrow>
                 map_option Inr
                   (regexLoop exec (pdf_markdown pdf) maxResults contextChars 0 0 []))
          else
            (let searchText = (if caseSensitive then query else toLowerCase query);
                 markdownText = (if caseSensitive then pdf_markdown pdf
                                 else toLowerCase (pdf_markdown pdf))
             in map_option Inr
                  (literalLoop (pdf_markdown pdf) markdownText searchText query maxResults
                     contextChars 0 0 [])))"

text \<open>\<open>searchPDF\<close>: the matches of the scan, grouped by section.\<close>

definition searchPDF ::
  "Runtime \<Rightarrow> Registry \<Rightarrow> string \<Rightarrow> string \<Rightarrow> bool \<Rightarrow> bool \<Rightarrow> nat option \<Rightarrow> nat
     \<Rightarrow> (error + SearchResult list) option" where
  "searchPDF rt loadedPDFs pdfId query caseSensitive regex maxResults contextChars =
     (case searchMatches rt loadedPDFs pdfId query caseSensitive regex maxResults contextChars of
        None \<Rightarrow> None
      | Some (Inl e) \<Rightarrow> Some (Inl e)
      | Some (Inr matches) \<Rightarrow> Some (Inr (groupResults matches)))"

text \<open>The number of match entries across the groups of a result.\<close>

definition countMatches :: "SearchResult list \<Rightarrow> nat" where
  "countMatches results = sum_list (map (\<lambda>r. length (r_matches r)) results)"

text \<open>The number of match entries held by the groups while they are built.\<close>

definition groupSize :: "(string \<times> (string \<times> string) list) list \<Rightarrow> nat" where
  "groupSize grouped = sum_list (map (\<lambda>(k, v). length v) grouped)"

text \<open>
  The part of the matches of an unlimited scan that a scan with a limit keeps, when
  \<open>totalMatches\<close> of them are already counted.
\<close>

definition limitTake :: "nat option \<Rightarrow> nat \<Rightarrow> 'a list \<Rightarrow> 'a list" where
  "limitTake maxResults totalMatches xs =
     (case maxResults of
        None \<Rightarrow> xs
      | Some k \<Rightarrow> if k = 0 then xs else take (k - totalMatches) xs)"

text \<open>
  What a regular-expression engine guarantees of \<open>exec\<close> on a text: nothing is found from
  beyond the end, and a match lies at or after \<open>lastIndex\<close> and within the text.
\<close>

definition wellBehaved :: "RegExpExec \<Rightarrow> string \<Rightarrow> bool" where
  "wellBehaved exec md =
     (\<forall>lastIndex.
        case exec md lastIndex of
          None \<Rightarrow> True
        | Some (position, matchedText) \<Rightarrow>
            lastIndex \<le> length md \<and> lastIndex \<le> position
            \<and> position + length matchedText \<le> length md)"

text \<open>
  The scan as the specification words it: standard scanning from \<open>lastIndex\<close>, with a
  forced advance of one position after a match of length zero. It is total: it stops
  where the engine would break its guarantees. The result lists the position and the text
  of every match.
\<close>

function standardScan :: "RegExpExec \<Rightarrow> string \<Rightarrow> nat \<Rightarrow> (nat \<times> string) list" where
  "standardScan exec md lastIndex =
     (case exec md lastIndex of
        None \<Rightarrow> []
      | Some (position, matchedText) \<Rightarrow>
          if lastIndex \<le> length md \<and> lastIndex \<le> position
             \<and> position + length matchedText \<le> length md
          then (position, matchedText)
               # standardScan exec md
                   (if matchedText = [] then position + 1 else position + length matchedText)
          else [])"
  by pat_completeness auto
termination
  by (relation "measure (\<lambda>(exec, md, lastIndex). Suc (length md) - lastIndex)")
     (auto simp: neq_Nil_conv)

declare standardScan.simps [simp del]

text \<open>
  Two engines: the expression \<open>a*\<close>, which matches the run of \<open>a\<close> at \<open>lastIndex\<close>
  (of length zero where there is none), and the literal \<open>a\<close>.
\<close>

definition execAStar :: RegExpExec where
  "execAStar md lastIndex =
     (if lastIndex \<le> length md
      then Some (lastIndex, takeWhile (\<lambda>c. c = CHR ''a'') (drop lastIndex md))
      else None)"

definition execA :: RegExpExec where
  "execA md lastIndex =
     (if lastIndex \<le> length md
      then map_option (\<lambda>i. (i, ''a'')) (indexOf md ''a'' lastIndex)
      else None)"

definition regexRuntime :: Runtime where
  "regexRuntime = \<lparr>pathSep = CHR ''/'', pathNormalize = (\<lambda>s. s), urlPathname = (\<lambda>s. None),
      regexCompile = (\<lambda>q c. if q = ''a*'' then Some execAStar
                             else if q = ''a'' then Some execA else None)\<rparr>"

text \<open>A loaded document with two headings, and the registry that holds it.\<close>

definition sampleBody :: string where
  "sampleBody = ''intro\<newline># Alpha\<newline>baac\<newline>## Beta\<newline>aa''"

definition samplePDF :: LoadedPDF where
  "samplePDF = \<lparr>pdf_id = ''doc'', pdf_path = ''/doc'', pdf_pageCount = 1,
                 pdf_markdown = sampleBody, pdf_metadata = None, pdf_outline = None\<rparr>"

definition sampleRegistry :: Registry where
  "sampleRegistry = Map.empty(''doc'' \<mapsto> samplePDF)"

text \<open>
  A document in which a second heading of depth 1 ends the section of the first, and the
  registry that holds it.
\<close>

definition chaptersBody :: string where
  "chaptersBody = ''intro\<newline># Alpha\<newline>baac\<newline>## Beta\<newline>aa\<newline># Gamma\<newline>cc''"

definition chaptersRegistry :: Registry where
  "chaptersRegistry = Map.empty(''doc'' \<mapsto> samplePDF\<lparr>pdf_markdown := chaptersBody\<rparr>)"









text \<open>
  The matches of the case-insensitive literal search for \<open>a\<close> in the sample
  document, without context, in the order of the scan: seven, two of them inside heading
  lines.
\<close>

definition sampleMatches :: "SearchMatch list" where
  "sampleMatches =
     [\<lparr>m_text = ''A'', m_context = ''A'', m_section = ''Document Start''\<rparr>,
      \<lparr>m_text = ''a'', m_context = ''a'', m_section = ''Alph''\<rparr>,
      \<lparr>m_text = ''a'', m_context = ''a'', m_section = ''Alpha''\<rparr>,
      \<lparr>m_text = ''a'', m_context = ''a'', m_section = ''Alpha''\<rparr>,
      \<lparr>m_text = ''a'', m_context = ''a'', m_section = ''Bet''\<rparr>,
      \<lparr>m_text = ''a'', m_context = ''a'', m_section = ''Beta''\<rparr>,
      \<lparr>m_text = ''a'', m_context = ''a'', m_section = ''Beta''\<rparr>]"

text \<open>The groups of these matches.\<close>

definition sampleAllResults :: "SearchResult list" where
  "sampleAllResults =
     [\<lparr>r_page = 0, r_section = ''Document Start'', r_matches = [(''A'', ''A'')]\<rparr>,
      \<lparr>r_page = 0, r_section = ''Alph'', r_matches = [(''a'', ''a'')]\<rparr>,
      \<lparr>r_page = 0, r_section = ''Alpha'', r_matches = [(''a'', ''a''), (''a'', ''a'')]\<rparr>,
      \<lparr>r_page = 0, r_section = ''Bet'', r_matches = [(''a'', ''a'')]\<rparr>,
      \<lparr>r_page = 0, r_section = ''Beta'', r_matches = [(''a'', ''a''), (''a'', ''a'')]\<rparr>]"

section \<open>Facts about strings\<close>

lemma splitOn_nonempty: "splitOn sep s \<noteq> [] \<or> (sep = [] \<and> s = [])"
  by (subst splitOn.simps) (auto split: list.splits)

lemma join_splitOn: "sep \<noteq> [] \<Longrightarrow> join sep (splitOn sep s) = s"
proof (induction sep s rule: splitOn.induct)
  case (1 sep s)
  show ?case
  proof (cases "s = []")
    case True
    then show ?thesis using 1(3) by (simp add: splitOn.simps)
  next
    case False
    note ne = this
    show ?thesis
    proof (cases "startsWith s sep")
      case True
      obtain y ys where y: "splitOn sep (drop (length sep) s) = y # ys"
        using splitOn_nonempty[of sep "drop (length sep) s"] 1(3)
        by (cases "splitOn sep (drop (length sep) s)") auto
      have "join sep (splitOn sep (drop (length sep) s)) = drop (length sep) s"
        using 1(1)[OF 1(3) ne True] 1(3) by simp
      moreover have "s = sep @ drop (length sep) s"
        using True by (metis append_take_drop_id startsWith_def)
      ultimately show ?thesis
        using True ne 1(3) y by (subst splitOn.simps) simp
    next
      case False
      obtain y ys where y: "splitOn sep (tl s) = y # ys"
        using splitOn_nonempty[of sep "tl s"] 1(3)
        by (cases "splitOn sep (tl s)") auto
      have ih: "join sep (splitOn sep (tl s)) = tl s"
        using 1(2)[OF 1(3) ne False] 1(3) by simp
      have "join sep ((hd s # y) # ys) = hd s # join sep (y # ys)"
        by (cases ys) auto
      then show ?thesis
        using False ne 1(3) y ih by (subst splitOn.simps) simp
    qed
  qed
qed

lemma join_append:
  "join sep (xs @ ys) =
     (if xs = [] then join sep ys else if ys = [] then join sep xs
      else join sep xs @ sep @ join sep ys)"
proof (induction sep xs rule: join.induct)
  case (1 sep)
  show ?case by simp
next
  case (2 sep x)
  show ?case by (cases ys) auto
next
  case (3 sep x y zs)
  then show ?case by auto
qed

lemma join_Cons: "join sep (x # ys) = (if ys = [] then x else x @ sep @ join sep ys)"
  by (cases ys) auto

lemma join_snoc_glue:
  "a \<noteq> [] \<Longrightarrow> join sep (xs @ [a @ sep @ b] @ ys) = join sep (xs @ [a] @ b # ys)"
  by (simp add: join_append join_Cons)

section \<open>Facts about the pagination loop\<close>

lemma paginateLoop_join:
  assumes "[] \<notin> set ps"
  shows "join [NL, NL] (paginateLoop B ps cur pages) =
         join [NL, NL] (pages @ (if cur = [] then [] else [cur]) @ ps)"
  using assms
proof (induction B ps cur pages rule: paginateLoop.induct)
  case (1 B cur pages)
  then show ?case by auto
next
  case (2 B para rest cur pages)
  have pne: "para \<noteq> []" and r1: "[] \<notin> set rest" and r2: "[] \<notin> set (tl rest)"
    using 2(7) by (cases rest; auto)+
  show ?case
  proof (cases "length cur = 0")
    case True
    show ?thesis
    proof (cases "pullsNext B para rest para")
      case p: True
      then have rest: "rest = hd rest # tl rest" by (simp add: pullsNext_def)
      have "join [NL, NL] (pages @ [para @ [NL, NL] @ hd rest] @ tl rest)
            = join [NL, NL] (pages @ [para] @ hd rest # tl rest)"
        using pne by (rule join_snoc_glue)
      then show ?thesis
        using 2(1)[OF True p r2] True p pne rest by simp
    next
      case p: False
      show ?thesis
        using 2(2)[OF True p r1] True p pne by simp
    qed
  next
    case False
    note ne = this
    then have cne: "cur \<noteq> []" by simp
    show ?thesis
    proof (cases "length cur + length para + 2 \<le> B")
      case fit: True
      have g1: "join [NL, NL] (pages @ [cur @ [NL, NL] @ para] @ rest)
            = join [NL, NL] (pages @ [cur] @ para # rest)"
        using cne by (rule join_snoc_glue)
      show ?thesis
      proof (cases "pullsNext B para rest (cur @ [NL, NL] @ para)")
        case p: True
        then have rest: "rest = hd rest # tl rest" by (simp add: pullsNext_def)
        have "join [NL, NL] (pages @ [(cur @ [NL, NL] @ para) @ [NL, NL] @ hd rest] @ tl rest)
            = join [NL, NL] (pages @ [cur @ [NL, NL] @ para] @ hd rest # tl rest)"
          by (rule join_snoc_glue) (use cne in simp)
        then show ?thesis
          using 2(3)[OF ne fit p r2] ne fit p cne g1 rest by simp
      next
        case p: False
        show ?thesis
          using 2(4)[OF ne fit p r1] ne fit p cne g1 by simp
      qed
    next
      case fit: False
      show ?thesis
      proof (cases "pullsNext B para rest para")
        case p: True
        then have rest: "rest = hd rest # tl rest" by (simp add: pullsNext_def)
        have "join [NL, NL] ((pages @ [cur]) @ [para @ [NL, NL] @ hd rest] @ tl rest)
            = join [NL, NL] ((pages @ [cur]) @ [para] @ hd rest # tl rest)"
          using pne by (rule join_snoc_glue)
        then show ?thesis
          using 2(5)[OF ne fit p r2] ne fit p cne pne rest by simp
      next
        case p: False
        show ?thesis
          using 2(6)[OF ne fit p r1] ne fit p cne pne by simp
      qed
    qed
  qed
qed

lemma paginateLoop_bound:
  assumes "\<forall>pg\<in>set pages. length pg \<le> B \<or> (pg \<in> S \<and> B < length pg)"
    and "cur = [] \<or> length cur \<le> B \<or> (cur \<in> S \<and> B < length cur)"
    and "set ps \<subseteq> S"
  shows "\<forall>pg\<in>set (paginateLoop B ps cur pages). length pg \<le> B \<or> (pg \<in> S \<and> B < length pg)"
  using assms
proof (induction B ps cur pages rule: paginateLoop.induct)
  case (1 B cur pages)
  then show ?case by auto
next
  case (2 B para rest cur pages)
  have par: "length para \<le> B \<or> (para \<in> S \<and> B < length para)"
    using 2(9) by auto
  have rest: "set rest \<subseteq> S" "set (tl rest) \<subseteq> S"
    using 2(9) by (cases rest; auto)+
  show ?case
  proof (cases "length cur = 0")
    case True
    show ?thesis
    proof (cases "pullsNext B para rest para")
      case p: True
      have "length (para @ [NL, NL] @ hd rest) \<le> B"
        using p by (simp add: pullsNext_def)
      then show ?thesis
        using 2(1)[OF True p 2(7) _ rest(2)] True p by simp
    next
      case p: False
      show ?thesis
        using 2(2)[OF True p 2(7) _ rest(1)] par True p by simp
    qed
  next
    case False
    note ne = this
    show ?thesis
    proof (cases "length cur + length para + 2 \<le> B")
      case fit: True
      show ?thesis
      proof (cases "pullsNext B para rest (cur @ [NL, NL] @ para)")
        case p: True
        have "length (cur @ [NL, NL] @ para @ [NL, NL] @ hd rest) \<le> B"
          using p by (simp add: pullsNext_def)
        then show ?thesis
          using 2(3)[OF ne fit p 2(7) _ rest(2)] ne fit p by simp
      next
        case p: False
        have "length (cur @ [NL, NL] @ para) \<le> B"
          using fit by simp
        then show ?thesis
          using 2(4)[OF ne fit p 2(7) _ rest(1)] ne fit p by simp
      qed
    next
      case fit: False
      have pages': "\<forall>pg\<in>set (pages @ [cur]). length pg \<le> B \<or> (pg \<in> S \<and> B < length pg)"
        using 2(7) 2(8) ne by auto
      show ?thesis
      proof (cases "pullsNext B para rest para")
        case p: True
        have "length (para @ [NL, NL] @ hd rest) \<le> B"
          using p by (simp add: pullsNext_def)
        then show ?thesis
          using 2(5)[OF ne fit p pages' _ rest(2)] ne fit p by simp
      next
        case p: False
        show ?thesis
          using 2(6)[OF ne fit p pages' _ rest(1)] par ne fit p by simp
      qed
    qed
  qed
qed

section \<open>Claim C5: the budget of a page\<close>

text \<open>
  C5. Every page returned by \<open>paginateContent\<close> has length at most the budget, except a
  page that is one single paragraph of the content whose own length exceeds the budget;
  such a paragraph is placed whole. The heading lookahead is part of the loop, so a pulled
  paragraph never takes a page over the budget.
\<close>

theorem C5_page_within_budget:
  "\<forall>pg\<in>set (paginateContent content B).
     length pg \<le> B \<or> (pg \<in> set (splitOn [NL, NL] content) \<and> B < length pg)"
proof (cases "length content \<le> B")
  case True
  then show ?thesis by (simp add: paginateContent_def)
next
  case False
  have "\<forall>pg\<in>set (paginateLoop B (splitOn [NL, NL] content) [] []).
     length pg \<le> B \<or> (pg \<in> set (splitOn [NL, NL] content) \<and> B < length pg)"
    by (rule paginateLoop_bound) auto
  then show ?thesis using False by (simp add: paginateContent_def)
qed

text \<open>
  At budget 10 the example content gives three pages: the heading with its first paragraph
  (within the budget), and the long paragraph alone (13 characters, over the budget).
\<close>

theorem C5_page_within_budget_witness:
  "paginateContent exampleContent 10 = [''# H\<newline>\<newline>abc'', ''defghijklmnop'', ''xy'']
   \<and> ''defghijklmnop'' \<in> set (splitOn [NL, NL] exampleContent)
   \<and> 10 < length ''defghijklmnop''
   \<and> length ''# H\<newline>\<newline>abc'' \<le> 10"
proof -
  have pages: "paginateContent exampleContent 10 = [''# H\<newline>\<newline>abc'', ''defghijklmnop'', ''xy'']"
    by code_simp
  have m: "''defghijklmnop'' \<in> set (paginateContent exampleContent 10)"
    and m': "''# H\<newline>\<newline>abc'' \<in> set (paginateContent exampleContent 10)"
    by (simp_all add: pages)
  have big: "\<not> length ''defghijklmnop'' \<le> 10" by simp
  have small: "\<not> 10 < length ''# H\<newline>\<newline>abc''" by simp
  from C5_page_within_budget[of exampleContent 10] m big
  have a: "''defghijklmnop'' \<in> set (splitOn [NL, NL] exampleContent) \<and> 10 < length ''defghijklmnop''"
    by blast
  from C5_page_within_budget[of exampleContent 10] m' small
  have b: "length ''# H\<newline>\<newline>abc'' \<le> 10"
    by blast
  from pages a b show ?thesis by blast
qed

section \<open>Claim C2: joining the pages\<close>

text \<open>
  C2 (as amended). For every input text and budget, when the text fits the budget or none
  of its blank-line-delimited paragraphs is empty, joining the pages returned by
  \<open>paginateContent\<close> with the paragraph separator \<open>"\n\n"\<close> reconstructs the input
  exactly.
\<close>

theorem C2_join_pages:
  assumes "length content \<le> B \<or> [] \<notin> set (splitOn [NL, NL] content)"
  shows "join [NL, NL] (paginateContent content B) = content"
proof (cases "length content \<le> B")
  case True
  then show ?thesis by (simp add: paginateContent_def)
next
  case False
  with assms have ne: "[] \<notin> set (splitOn [NL, NL] content)" by simp
  have "join [NL, NL] (paginateLoop B (splitOn [NL, NL] content) [] [])
        = join [NL, NL] (splitOn [NL, NL] content)"
    using paginateLoop_join[OF ne, of B "[]" "[]"] by simp
  also have "\<dots> = content" by (rule join_splitOn) simp
  finally show ?thesis using False by (simp add: paginateContent_def)
qed

theorem C2_join_pages_witness:
  "[] \<notin> set (splitOn [NL, NL] exampleContent)
   \<and> \<not> length exampleContent \<le> 10
   \<and> join [NL, NL] (paginateContent exampleContent 10) = exampleContent"
proof -
  have ne: "[] \<notin> set (splitOn [NL, NL] exampleContent)" by code_simp
  have big: "\<not> length exampleContent \<le> 10" by code_simp
  from C2_join_pages[OF disjI2, OF ne, of 10]
  have "join [NL, NL] (paginateContent exampleContent 10) = exampleContent" .
  with ne big show ?thesis by blast
qed

text \<open>
  C2 as stated fails on a text with an empty paragraph: at budget 3 the text
  \<open>"abc\n\n\n\ndef"\<close> gives the pages \<open>"abc"\<close> and \<open>"def"\<close>, whose join has lost a
  blank-line separator.
\<close>

theorem C2_counterexample:
  "join [NL, NL] (paginateContent gappedContent 3) \<noteq> gappedContent"
  by code_simp

section \<open>Claim C4: the worked example\<close>

text \<open>
  C4 (as amended). For the pages \<open>["Intro", "Ch1 body", "Ch2 body"]\<close> and the two top-level
  outline entries "Chapter 1" (page 2) and "Chapter 2" (page 3), the synthesized body is
  \<open>"Intro\n\n# Chapter 1\n\nCh1 body\n\n# Chapter 2\n\nCh2 body"\<close>: a top-level entry
  has level 0, and its heading line has \<open>level + 1 = 1\<close> hash.
\<close>

theorem C4_example_body:
  "convertToMarkdown examplePages (Some exampleOutline) =
     ''Intro\<newline>\<newline># Chapter 1\<newline>\<newline>Ch1 body\<newline>\<newline># Chapter 2\<newline>\<newline>Ch2 body''"
  by code_simp

text \<open>
  C4 as stated, with two hashes on each heading line, is not what the synthesis returns.
\<close>

theorem C4_counterexample:
  "convertToMarkdown examplePages (Some exampleOutline) \<noteq>
     ''Intro\<newline>\<newline>## Chapter 1\<newline>\<newline>Ch1 body\<newline>\<newline>## Chapter 2\<newline>\<newline>Ch2 body''"
  by code_simp

section \<open>Facts about the emission of pages\<close>

lemma chunkPages_append: "chunkPages (a @ b) = chunkPages a @ chunkPages b"
  by (simp add: chunkPages_def)

lemma chunkPages_pageChunks: "chunkPages (pageChunks pages a b) = filter (nonBlank pages) [a..<b]"
  by (induction "[a..<b]" arbitrary: a) (simp_all add: chunkPages_def pageChunks_def comp_def)

lemma chunkPages_heading: "chunkPages [HeadingChunk s] = []"
  by (simp add: chunkPages_def)

lemma chunkPages_emitSection:
  "chunkPages (fst (emitSection pages s (cs, l))) =
     chunkPages cs @ filter (nonBlank pages) [Suc l..<startPage s]
       @ filter (nonBlank pages) [startPage s..<Suc (endPage s)]"
  by (simp add: emitSection_def Let_def chunkPages_append chunkPages_pageChunks chunkPages_heading
        del: upt_Suc append_assoc add: append_assoc[symmetric])

lemma snd_emitSection: "snd (emitSection pages s (cs, l)) = endPage s"
  by (simp add: emitSection_def Let_def)

lemma fold_emit_covers:
  assumes "\<And>p. nonBlank pages p \<Longrightarrow> p \<le> l \<Longrightarrow> p \<in> set (chunkPages cs)"
    and "nonBlank pages p"
    and "p \<le> snd (fold (emitSection pages) ss (cs, l))"
  shows "p \<in> set (chunkPages (fst (fold (emitSection pages) ss (cs, l))))"
  using assms
proof (induction ss arbitrary: cs l)
  case Nil
  then show ?case by simp
next
  case (Cons s ss)
  obtain cs' where st: "emitSection pages s (cs, l) = (cs', endPage s)"
    using snd_emitSection[of pages s cs l] by (cases "emitSection pages s (cs, l)") simp
  have cs': "chunkPages cs' = chunkPages cs @ filter (nonBlank pages) [Suc l..<startPage s]
       @ filter (nonBlank pages) [startPage s..<Suc (endPage s)]"
    using chunkPages_emitSection[of pages s cs l] st by simp
  have inv: "q \<in> set (chunkPages cs')" if "nonBlank pages q" "q \<le> endPage s" for q
  proof (cases "q \<le> l")
    case True
    then show ?thesis using Cons.prems(1)[OF that(1)] cs' by simp
  next
    case False
    then show ?thesis using that cs' by (cases "q < startPage s") (auto simp del: upt_Suc)
  qed
  show ?case
    using Cons.IH[of "endPage s" cs', OF inv Cons.prems(2)] Cons.prems(3) st by simp
qed

lemma filter_upt_split:
  "a \<le> b \<Longrightarrow> b \<le> c \<Longrightarrow> filter P [a..<b] @ filter P [b..<c] = filter P [a..<c]"
  by (metis filter_append le_Suc_ex upt_add_eq_append)

lemma fold_emit_disjoint:
  assumes "disjointSections l ss"
  shows "chunkPages (fst (fold (emitSection pages) ss (cs, l))) =
           chunkPages cs @ filter (nonBlank pages) [Suc l..<Suc (snd (fold (emitSection pages) ss (cs, l)))]
         \<and> l \<le> snd (fold (emitSection pages) ss (cs, l))"
  using assms
proof (induction ss arbitrary: cs l)
  case Nil
  then show ?case by simp
next
  case (Cons s ss)
  obtain cs' where st: "emitSection pages s (cs, l) = (cs', endPage s)"
    using snd_emitSection[of pages s cs l] by (cases "emitSection pages s (cs, l)") simp
  have d: "l < startPage s" "startPage s \<le> Suc (endPage s)" "disjointSections (endPage s) ss"
    using Cons.prems by simp_all
  have "chunkPages cs' = chunkPages cs @ filter (nonBlank pages) [Suc l..<startPage s]
       @ filter (nonBlank pages) [startPage s..<Suc (endPage s)]"
    using chunkPages_emitSection[of pages s cs l] st by simp
  also have "\<dots> = chunkPages cs @ filter (nonBlank pages) [Suc l..<Suc (endPage s)]"
    using filter_upt_split[of "Suc l" "startPage s" "Suc (endPage s)"] d by (simp del: upt_Suc)
  finally have cs': "chunkPages cs' = chunkPages cs @ filter (nonBlank pages) [Suc l..<Suc (endPage s)]" .
  let ?f = "snd (fold (emitSection pages) ss (cs', endPage s))"
  have ih: "chunkPages (fst (fold (emitSection pages) ss (cs', endPage s))) =
           chunkPages cs' @ filter (nonBlank pages) [Suc (endPage s)..<Suc ?f]"
    and le: "endPage s \<le> ?f"
    using Cons.IH[OF d(3), of cs'] by simp_all
  have "chunkPages cs' @ filter (nonBlank pages) [Suc (endPage s)..<Suc ?f]
        = chunkPages cs @ filter (nonBlank pages) [Suc l..<Suc ?f]"
    using filter_upt_split[of "Suc l" "Suc (endPage s)" "Suc ?f"] d le cs' by (simp del: upt_Suc)
  then show ?case using ih le d st by (simp del: upt_Suc)
qed

lemma nonBlank_beyond: "filter (nonBlank pages) [Suc (length pages)..<b] = []"
  by (auto simp: filter_empty_conv nonBlank_def)

lemma outlineChunks_covers:
  assumes "nonBlank pages p"
  shows "p \<in> set (chunkPages (outlineChunks pages items))"
proof -
  let ?ss = "sort_key startPage (flattenOutline (length pages) items)"
  obtain cs l where f: "fold (emitSection pages) ?ss ([], 0) = (cs, l)"
    by (cases "fold (emitSection pages) ?ss ([], 0)") auto
  have in_fold: "p \<in> set (chunkPages cs)" if "p \<le> l"
    using fold_emit_covers[of pages 0 "[]" p ?ss] assms that f
    by (simp add: nonBlank_def)
  have pN: "1 \<le> p" "p \<le> length pages" using assms by (simp_all add: nonBlank_def)
  show ?thesis
  proof (cases "p \<le> l")
    case True
    then show ?thesis using in_fold f
      by (simp add: outlineChunks_def Let_def chunkPages_append)
  next
    case False
    then have "l < length pages" using pN by simp
    then show ?thesis using False f assms pN
      by (simp add: outlineChunks_def Let_def chunkPages_append chunkPages_pageChunks del: upt_Suc)
  qed
qed

lemma outlineChunks_disjoint:
  assumes "disjointSections 0 (sort_key startPage (flattenOutline (length pages) items))"
  shows "chunkPages (outlineChunks pages items) = filter (nonBlank pages) [1..<Suc (length pages)]"
proof -
  let ?ss = "sort_key startPage (flattenOutline (length pages) items)"
  obtain cs l where f: "fold (emitSection pages) ?ss ([], 0) = (cs, l)"
    by (cases "fold (emitSection pages) ?ss ([], 0)") auto
  have cs: "chunkPages cs = filter (nonBlank pages) [1..<Suc l]"
    using fold_emit_disjoint[OF assms, of pages "[]"] f by (simp add: chunkPages_def del: upt_Suc)
  show ?thesis
  proof (cases "l < length pages")
    case True
    then show ?thesis
      using f cs filter_upt_split[of 1 "Suc l" "Suc (length pages)" "nonBlank pages"]
      by (simp add: outlineChunks_def Let_def chunkPages_append chunkPages_pageChunks del: upt_Suc)
  next
    case False
    then have "filter (nonBlank pages) [1..<Suc (length pages)] @ filter (nonBlank pages) [Suc (length pages)..<Suc l]
       = filter (nonBlank pages) [1..<Suc l]"
      by (intro filter_upt_split) simp_all
    then show ?thesis using False f cs
      by (simp add: outlineChunks_def Let_def nonBlank_beyond del: upt_Suc)
  qed
qed

lemma pages_by_number: "map (\<lambda>p. pages ! (p - Suc 0)) [Suc 0..<Suc (length pages)] = pages"
  by (rule nth_equalityI) (simp_all del: upt_Suc)

lemma disjointSections_sorted:
  "disjointSections lo ss \<Longrightarrow> sorted (map startPage ss) \<and> (\<forall>s\<in>set ss. lo < startPage s)"
proof (induction ss arbitrary: lo)
  case Nil
  then show ?case by simp
next
  case (Cons s ss)
  then have "sorted (map startPage ss)" and "\<forall>t\<in>set ss. endPage s < startPage t"
    by auto
  then show ?case using Cons.prems by fastforce
qed

lemma singleLevel_flatten:
  "singleLevelIncreasing lo n items \<Longrightarrow> disjointSections lo (flattenOutline n items)"
proof (induction lo n items rule: singleLevelIncreasing.induct)
  case (1 lo n)
  then show ?case by simp
next
  case (2 lo n t p l ch rest)
  from 2(2) obtain q where q: "p = Some q" "ch = []" "lo < q" "q \<le> n" "singleLevelIncreasing q n rest"
    by (auto split: option.splits)
  have ih: "disjointSections q (flattenOutline n rest)" using 2(1)[OF q(1)] q by simp
  show ?case
  proof (cases rest)
    case Nil
    then show ?thesis using q by (simp add: hasPage_def)
  next
    case (Cons nx rest')
    obtain t' p' l' ch' where nx: "nx = OutlineItem t' p' l' ch'" by (cases nx)
    from q(5) Cons nx obtain q' where q': "p' = Some q'" "q < q'" by (auto split: option.splits)
    obtain s ss where fl: "flattenOutline n rest = s # ss" "startPage s = q'"
      using Cons nx q' by (simp add: hasPage_def)
    have "disjointSections (q' - 1) (flattenOutline n rest)"
      using ih q' fl by (simp del: flattenOutline.simps)
    then show ?thesis using q q' Cons nx by (simp add: hasPage_def)
  qed
qed

lemma singleLevel_nonOverlapping:
  assumes "singleLevelIncreasing 0 (length pages) items"
  shows "nonOverlapping pages (Some items)"
proof -
  have d: "disjointSections 0 (flattenOutline (length pages) items)"
    using assms by (rule singleLevel_flatten)
  then have "sort_key startPage (flattenOutline (length pages) items) = flattenOutline (length pages) items"
    using disjointSections_sorted[OF d] by (simp add: sort_key_id_if_sorted)
  then show ?thesis using d by (simp add: nonOverlapping_def)
qed

section \<open>Facts about the text of the body\<close>

lemma includesStr_iff: "includesStr s t \<longleftrightarrow> (\<exists>u v. s = u @ t @ v)"
proof
  assume "includesStr s t"
  then obtain i where i: "i \<le> length s" "take (length t) (drop i s) = t"
    by (auto simp: includesStr_def startsWith_def list_ex_iff less_Suc_eq_le simp del: upt_Suc)
  have "drop i s = take (length t) (drop i s) @ drop (length t) (drop i s)"
    by (simp only: append_take_drop_id)
  then have "s = take i s @ take (length t) (drop i s) @ drop (length t) (drop i s)"
    by (metis append_take_drop_id)
  then have "s = take i s @ t @ drop (length t) (drop i s)" by (simp only: i(2))
  then show "\<exists>u v. s = u @ t @ v" by blast
next
  assume "\<exists>u v. s = u @ t @ v"
  then obtain u v where s: "s = u @ t @ v" by blast
  have "length u \<le> length s" "take (length t) (drop (length u) s) = t"
    by (simp_all add: s)
  then show "includesStr s t"
    by (auto simp: includesStr_def startsWith_def list_ex_iff simp del: upt_Suc
             intro!: bexI[of _ "length u"])
qed

lemma dropWhile_keeps:
  assumes "t \<noteq> []" and "\<not> P (hd t)"
  shows "\<exists>u. dropWhile P (a @ t @ b) = u @ t @ b"
proof (induction a)
  case Nil
  have "dropWhile P (t @ b) = t @ b" using assms by (cases t) simp_all
  then show ?case by (intro exI[of _ "[]"]) simp
next
  case (Cons y a)
  show ?case
  proof (cases "P y")
    case True
    then show ?thesis using Cons by simp
  next
    case False
    then show ?thesis by (intro exI[of _ "y # a"]) simp
  qed
qed

lemma trim_keeps:
  assumes "t \<noteq> []" and "\<not> isWhiteSpace (hd t)" and "\<not> isWhiteSpace (last t)"
  shows "\<exists>u v. trim (a @ t @ b) = u @ t @ v"
proof -
  obtain u where u: "dropWhile isWhiteSpace (a @ t @ b) = u @ t @ b"
    using dropWhile_keeps[where P = isWhiteSpace and t = t and a = a and b = b, OF assms(1,2)]
    by blast
  have "rev t \<noteq> []" "\<not> isWhiteSpace (hd (rev t))"
    using assms(1,3) by (simp_all add: hd_rev)
  then obtain w where w: "dropWhile isWhiteSpace (rev b @ rev t @ rev u) = w @ rev t @ rev u"
    using dropWhile_keeps[of "rev t" isWhiteSpace "rev b" "rev u"] by blast
  have "trim (a @ t @ b) = rev (dropWhile isWhiteSpace (rev b @ rev t @ rev u))"
    by (simp add: trim_def u)
  then have "trim (a @ t @ b) = u @ t @ rev w" by (simp add: w)
  then show ?thesis by blast
qed

lemma trim_inside:
  assumes "trim x \<noteq> []"
  shows "\<exists>w1 w2. x = w1 @ trim x @ w2 \<and> \<not> isWhiteSpace (hd (trim x)) \<and> \<not> isWhiteSpace (last (trim x))"
proof -
  let ?d = "dropWhile isWhiteSpace x"
  let ?e = "dropWhile isWhiteSpace (rev ?d)"
  have t: "trim x = rev ?e" by (simp add: trim_def)
  have ene: "?e \<noteq> []" using assms t by simp
  have x: "x = takeWhile isWhiteSpace x @ ?d" by simp
  have "rev (rev ?d) = rev (takeWhile isWhiteSpace (rev ?d) @ ?e)"
    by (simp only: takeWhile_dropWhile_id)
  then have d: "?d = rev ?e @ rev (takeWhile isWhiteSpace (rev ?d))"
    by (simp only: rev_append rev_rev_ident)
  have dne: "?d \<noteq> []" using ene by (cases "?d") simp_all
  have "\<not> isWhiteSpace (hd ?d)" using dne by (rule hd_dropWhile)
  moreover have "hd ?d = hd (rev ?e)"
    using d ene by (metis hd_append2 rev_is_Nil_conv)
  ultimately have h: "\<not> isWhiteSpace (hd (trim x))" by (simp add: t)
  have "\<not> isWhiteSpace (hd ?e)" using ene by (rule hd_dropWhile)
  then have l: "\<not> isWhiteSpace (last (trim x))" using ene by (simp add: t last_rev)
  have "x = takeWhile isWhiteSpace x @ trim x @ rev (takeWhile isWhiteSpace (rev ?d))"
    using x d t by metis
  then show ?thesis using h l by blast
qed

lemma trim_includes:
  assumes "trim x \<noteq> []"
  shows "includesStr (trim (a @ x @ b)) (trim x)"
proof -
  obtain w1 w2 where x: "x = w1 @ trim x @ w2"
    and e: "\<not> isWhiteSpace (hd (trim x))" "\<not> isWhiteSpace (last (trim x))"
    using trim_inside[OF assms] by blast
  have "a @ x @ b = (a @ w1) @ trim x @ (w2 @ b)"
    using x by (metis append.assoc)
  then have "trim (a @ x @ b) = trim ((a @ w1) @ trim x @ (w2 @ b))" by (simp only:)
  then show ?thesis
    using trim_keeps[OF assms e, of "a @ w1" "w2 @ b"] by (simp only: includesStr_iff)
qed

lemma join_middle: "\<exists>u v. join sep (a @ x # b) = u @ x @ v"
proof (induction a)
  case Nil
  show ?case by (cases b) (auto intro: exI[of _ "[]"])
next
  case (Cons y a)
  then obtain u v where uv: "join sep (a @ x # b) = u @ x @ v" by blast
  have "a @ x # b \<noteq> []" by simp
  then obtain z zs where z: "a @ x # b = z # zs" by (cases "a @ x # b") auto
  have "join sep ((y # a) @ x # b) = y @ sep @ join sep (a @ x # b)"
    by (simp add: z)
  then have "join sep ((y # a) @ x # b) = (y @ sep @ u) @ x @ v" by (simp add: uv)
  then show ?case by blast
qed

lemma count_dropWhile: "\<not> P c \<Longrightarrow> count_list (dropWhile P s) c = count_list s c"
  by (induction s) auto

lemma count_rev: "count_list (rev s) c = count_list s c"
  by (induction s) simp_all

lemma count_trim: "\<not> isWhiteSpace c \<Longrightarrow> count_list (trim s) c = count_list s c"
  by (simp add: trim_def count_rev count_dropWhile)

lemma count_concat: "count_list (concat xs) c = sum_list (map (\<lambda>x. count_list x c) xs)"
  by (induction xs) simp_all

lemma count_join:
  "c \<notin> set sep \<Longrightarrow> count_list (join sep xs) c = count_list (concat xs) c"
  by (induction sep xs rule: join.induct) simp_all

lemma not_whiteSpace_NL: "\<not> isWhiteSpace c \<Longrightarrow> c \<noteq> NL"
  by (auto simp: isWhiteSpace_def)

lemma count_chunks:
  assumes "\<not> isWhiteSpace c"
  shows "count_list (concat (map (renderChunk pages) chunks)) c
         = sum_list (map (\<lambda>p. count_list (pages ! (p - 1)) c) (chunkPages chunks))
           + sum_list (map (\<lambda>s. count_list (headingLine s) c) (chunkSections chunks))"
proof (induction chunks)
  case Nil
  show ?case by (simp add: chunkPages_def chunkSections_def)
next
  case (Cons ch chunks)
  have nl: "c \<noteq> NL" using assms by (rule not_whiteSpace_NL)
  have split: "count_list (concat (map (renderChunk pages) (ch # chunks))) c
               = count_list (renderChunk pages ch) c
                 + count_list (concat (map (renderChunk pages) chunks)) c"
    by simp
  show ?case
  proof (cases ch)
    case (PageChunk q)
    have "count_list (renderChunk pages ch) c = count_list (pages ! (q - 1)) c"
      using nl by (simp add: PageChunk renderChunk_def)
    moreover have "chunkPages (ch # chunks) = q # chunkPages chunks"
      "chunkSections (ch # chunks) = chunkSections chunks"
      by (simp_all add: PageChunk chunkPages_def chunkSections_def)
    ultimately show ?thesis using Cons split by simp
  next
    case (HeadingChunk t)
    have "count_list (renderChunk pages ch) c = count_list (headingLine t) c"
      using nl by (simp add: HeadingChunk renderChunk_def)
    moreover have "chunkPages (ch # chunks) = chunkPages chunks"
      "chunkSections (ch # chunks) = t # chunkSections chunks"
      by (simp_all add: HeadingChunk chunkPages_def chunkSections_def)
    ultimately show ?thesis using Cons split by simp
  qed
qed

lemma chunkSections_append: "chunkSections (a @ b) = chunkSections a @ chunkSections b"
  by (simp add: chunkSections_def)

lemma chunkSections_pageChunks: "chunkSections (pageChunks pages a b) = []"
  by (simp add: chunkSections_def pageChunks_def)

lemma chunkSections_fold:
  "chunkSections (fst (fold (emitSection pages) ss (cs, l))) = chunkSections cs @ ss"
proof (induction ss arbitrary: cs l)
  case Nil
  show ?case by simp
next
  case (Cons s ss)
  obtain cs' where st: "emitSection pages s (cs, l) = (cs', endPage s)"
    using snd_emitSection[of pages s cs l] by (cases "emitSection pages s (cs, l)") simp
  have "chunkSections (fst (emitSection pages s (cs, l))) = chunkSections cs @ [s]"
    by (simp add: emitSection_def Let_def chunkSections_append chunkSections_pageChunks)
       (simp add: chunkSections_def pageChunks_def)
  then have "chunkSections cs' = chunkSections cs @ [s]" using st by simp
  then show ?case using Cons[of cs' "endPage s"] st by simp
qed

lemma chunkSections_outlineChunks:
  "chunkSections (outlineChunks pages items) = sort_key startPage (flattenOutline (length pages) items)"
proof -
  let ?ss = "sort_key startPage (flattenOutline (length pages) items)"
  obtain cs l where f: "fold (emitSection pages) ?ss ([], 0) = (cs, l)"
    by (cases "fold (emitSection pages) ?ss ([], 0)") auto
  have "chunkSections cs = ?ss"
    using chunkSections_fold[of pages ?ss "[]" 0] f by (simp add: chunkSections_def)
  then show ?thesis using f
    by (simp add: outlineChunks_def Let_def chunkSections_append chunkSections_pageChunks)
qed

lemma sum_list_insort:
  "sum_list (map f (insort_key k x xs)) = f x + sum_list (map (f::'a \<Rightarrow> nat) xs)"
  by (induction xs) simp_all

lemma sum_list_sort_key:
  "sum_list (map f (sort_key k xs)) = sum_list (map (f::'a \<Rightarrow> nat) xs)"
  by (induction xs) (simp_all add: sum_list_insort)

lemma sum_list_set_le:
  "sum f (set ys) \<le> sum_list (map (f::'a \<Rightarrow> nat) ys)"
proof (induction ys)
  case Nil
  show ?case by simp
next
  case (Cons y ys)
  have "sum f (set (y # ys)) \<le> f y + sum f (set ys)"
    by (cases "y \<in> set ys") (simp_all add: insert_absorb)
  then show ?case using Cons by simp
qed

lemma sum_list_subset:
  assumes "distinct xs" and "set xs \<subseteq> set ys"
  shows "sum_list (map f xs) \<le> sum_list (map (f::'a \<Rightarrow> nat) ys)"
proof -
  have "sum_list (map f xs) = sum f (set xs)"
    using assms(1) by (simp add: sum_list_distinct_conv_sum_set)
  also have "\<dots> \<le> sum f (set ys)"
    using assms(2) by (intro sum_mono2) simp_all
  also have "\<dots> \<le> sum_list (map f ys)" by (rule sum_list_set_le)
  finally show ?thesis .
qed

lemma count_nonBlank_pages:
  assumes "\<not> isWhiteSpace c"
  shows "sum_list (map (\<lambda>p. count_list (pages ! (p - 1)) c) (filter (nonBlank pages) [1..<Suc (length pages)]))
         = count_list (concat pages) c"
proof -
  have blank: "count_list (pages ! (p - 1)) c = 0"
    if "p \<in> set [1..<Suc (length pages)]" "\<not> nonBlank pages p" for p
  proof -
    have "trim (pages ! (p - 1)) = []" using that by (auto simp: nonBlank_def simp del: upt_Suc)
    then show ?thesis using count_trim[OF assms, of "pages ! (p - 1)"] by simp
  qed
  have "sum_list (map (\<lambda>p. count_list (pages ! (p - 1)) c) (filter (nonBlank pages) xs))
        = sum_list (map (\<lambda>p. count_list (pages ! (p - 1)) c) xs)"
    if "set xs \<subseteq> set [1..<Suc (length pages)]" for xs
    using that
  proof (induction xs)
    case Nil
    show ?case by simp
  next
    case (Cons x xs)
    then show ?case using blank[of x] by (cases "nonBlank pages x") (simp_all del: upt_Suc)
  qed
  then have "sum_list (map (\<lambda>p. count_list (pages ! (p - 1)) c) (filter (nonBlank pages) [1..<Suc (length pages)]))
        = sum_list (map (\<lambda>p. count_list (pages ! (p - 1)) c) [1..<Suc (length pages)])"
    by blast
  also have "\<dots> = sum_list (map (\<lambda>x. count_list x c) (map (\<lambda>p. pages ! (p - Suc 0)) [Suc 0..<Suc (length pages)]))"
    by (simp add: comp_def del: upt_Suc)
  also have "\<dots> = count_list (concat pages) c"
    by (simp only: pages_by_number count_concat)
  finally show ?thesis .
qed

lemma count_sections:
  "sum_list (map (\<lambda>s. count_list (headingLine s) c) (sort_key startPage ss))
   = count_list (concat (map headingLine ss)) c"
  by (simp add: sum_list_sort_key count_concat comp_def)

lemma pageChunk_mem:
  "p \<in> set (chunkPages chunks) \<Longrightarrow> PageChunk p \<in> set chunks"
  by (induction chunks) (auto simp: chunkPages_def split: Chunk.splits)

lemma body_includes_page:
  assumes "nonBlank pages p"
  shows "includesStr (convertToMarkdown pages outline) (trim (pages ! (p - 1)))"
proof -
  have ne: "trim (pages ! (p - 1)) \<noteq> []" and pN: "1 \<le> p" "p \<le> length pages"
    using assms by (simp_all add: nonBlank_def)
  show ?thesis
  proof (cases "outline = None \<or> outline = Some []")
    case True
    have "pages = take (p - 1) pages @ pages ! (p - 1) # drop (Suc (p - 1)) pages"
      using pN by (intro id_take_nth_drop) simp
    then obtain u v where "join [NL, NL] pages = u @ pages ! (p - 1) @ v"
      using join_middle[of "[NL, NL]" "take (p - 1) pages" "pages ! (p - 1)" "drop (Suc (p - 1)) pages"]
      by auto
    moreover obtain w1 w2 where "pages ! (p - 1) = w1 @ trim (pages ! (p - 1)) @ w2"
      using trim_inside[OF ne] by blast
    ultimately have "join [NL, NL] pages = (u @ w1) @ trim (pages ! (p - 1)) @ (w2 @ v)"
      by (metis append.assoc)
    then have "includesStr (join [NL, NL] pages) (trim (pages ! (p - 1)))"
      unfolding includesStr_iff by blast
    then show ?thesis using True by (auto simp: convertToMarkdown_def)
  next
    case False
    then obtain items where o: "outline = Some items" "items \<noteq> []" by auto
    have "PageChunk p \<in> set (outlineChunks pages items)"
      using outlineChunks_covers[OF assms] by (rule pageChunk_mem)
    then obtain A B where ab: "outlineChunks pages items = A @ PageChunk p # B"
      by (auto dest: split_list)
    have "concat (map (renderChunk pages) (outlineChunks pages items))
            = concat (map (renderChunk pages) A) @ pages ! (p - 1)
              @ ([NL, NL] @ concat (map (renderChunk pages) B))"
      by (simp add: ab renderChunk_def)
    then have "includesStr (trim (concat (map (renderChunk pages) (outlineChunks pages items))))
                 (trim (pages ! (p - 1)))"
      using trim_includes[OF ne] by simp
    then show ?thesis using o by (simp add: convertToMarkdown_def)
  qed
qed

lemma body_count_lower:
  assumes "\<not> isWhiteSpace c"
  shows "count_list (concat pages) c + count_list (concat (map headingLine (outlineSections pages outline))) c
         \<le> count_list (convertToMarkdown pages outline) c"
proof (cases "outline = None \<or> outline = Some []")
  case True
  have "c \<notin> set [NL, NL]" using not_whiteSpace_NL[OF assms] by simp
  then have "count_list (join [NL, NL] pages) c = count_list (concat pages) c"
    by (rule count_join)
  then show ?thesis using True by (auto simp: convertToMarkdown_def outlineSections_def)
next
  case False
  then obtain items where o: "outline = Some items" "items \<noteq> []" by auto
  let ?chunks = "outlineChunks pages items"
  let ?f = "\<lambda>p. count_list (pages ! (p - 1)) c"
  have body: "count_list (convertToMarkdown pages outline) c
        = sum_list (map ?f (chunkPages ?chunks))
          + count_list (concat (map headingLine (outlineSections pages outline))) c"
    using o by (simp add: convertToMarkdown_def count_trim[OF assms] count_chunks[OF assms]
          chunkSections_outlineChunks count_sections outlineSections_def)
  have "set (filter (nonBlank pages) [1..<Suc (length pages)]) \<subseteq> set (chunkPages ?chunks)"
    using outlineChunks_covers by (auto simp del: upt_Suc)
  then have "sum_list (map ?f (filter (nonBlank pages) [1..<Suc (length pages)]))
        \<le> sum_list (map ?f (chunkPages ?chunks))"
    by (intro sum_list_subset) (simp_all del: upt_Suc)
  then show ?thesis using body count_nonBlank_pages[OF assms, of pages] by simp
qed

lemma body_count_exact:
  assumes "\<not> isWhiteSpace c" and "nonOverlapping pages outline"
  shows "count_list (convertToMarkdown pages outline) c
         = count_list (concat pages) c + count_list (concat (map headingLine (outlineSections pages outline))) c"
proof (cases "outline = None \<or> outline = Some []")
  case True
  have "c \<notin> set [NL, NL]" using not_whiteSpace_NL[OF assms(1)] by simp
  then have "count_list (join [NL, NL] pages) c = count_list (concat pages) c"
    by (rule count_join)
  then show ?thesis using True by (auto simp: convertToMarkdown_def outlineSections_def)
next
  case False
  then obtain items where o: "outline = Some items" "items \<noteq> []" by auto
  let ?chunks = "outlineChunks pages items"
  let ?f = "\<lambda>p. count_list (pages ! (p - 1)) c"
  have body: "count_list (convertToMarkdown pages outline) c
        = sum_list (map ?f (chunkPages ?chunks))
          + count_list (concat (map headingLine (outlineSections pages outline))) c"
    using o by (simp add: convertToMarkdown_def count_trim[OF assms(1)] count_chunks[OF assms(1)]
          chunkSections_outlineChunks count_sections outlineSections_def)
  have "disjointSections 0 (sort_key startPage (flattenOutline (length pages) items))"
    using assms(2) o by (simp add: nonOverlapping_def)
  then have "chunkPages ?chunks = filter (nonBlank pages) [1..<Suc (length pages)]"
    by (rule outlineChunks_disjoint)
  then show ?thesis using body count_nonBlank_pages[OF assms(1), of pages] by simp
qed

section \<open>Claim C1: every page in the body\<close>

text \<open>
  C1 (as amended). For every list of page texts and every outline shape, no page text is
  dropped: the body contains the trimmed text of every page that is not blank, as a
  contiguous substring, and it contains every character that is not white space at least
  as many times as the page texts and the heading lines of the flattened sections contain
  it together. When there is no outline (or an empty one), and when the sorted flattened
  sections do not overlap, no page text is duplicated either: the body contains every
  such character exactly as many times as the page texts and the heading lines together,
  which is each page's non-whitespace content exactly once (a character that only one
  page contains stands in the body as often as in that page). A single-level outline whose
  nodes all have pages, strictly increasing and within the document, is an outline whose
  sections do not overlap.
\<close>

theorem C1_page_content:
  "(nonBlank pages p \<longrightarrow>
      includesStr (convertToMarkdown pages outline) (trim (pages ! (p - 1))))
   \<and> (\<not> isWhiteSpace c \<longrightarrow>
        count_list (concat pages) c
          + count_list (concat (map headingLine (outlineSections pages outline))) c
        \<le> count_list (convertToMarkdown pages outline) c)
   \<and> (\<not> isWhiteSpace c \<and> nonOverlapping pages outline \<longrightarrow>
        count_list (convertToMarkdown pages outline) c
        = count_list (concat pages) c
          + count_list (concat (map headingLine (outlineSections pages outline))) c)
   \<and> ((\<exists>items. outline = Some items \<and> singleLevelIncreasing 0 (length pages) items)
        \<longrightarrow> nonOverlapping pages outline)"
  using body_includes_page[of pages p outline] body_count_lower[of c pages outline]
    body_count_exact[of c pages outline] singleLevel_nonOverlapping[of pages]
  by blast

text \<open>
  The worked example (a single-level outline in page order): the body contains the text
  of page 2, and the character \<open>1\<close> once for the page and once for the heading that
  have it. The nested outline: the body contains the text of page 2, and the character
  \<open>2\<close> at least once.
\<close>

theorem C1_page_content_witness:
  "nonBlank examplePages 2
   \<and> includesStr (convertToMarkdown examplePages (Some exampleOutline)) ''Ch1 body''
   \<and> \<not> isWhiteSpace (CHR ''1'')
   \<and> singleLevelIncreasing 0 (length examplePages) exampleOutline
   \<and> nonOverlapping examplePages (Some exampleOutline)
   \<and> count_list (concat examplePages) (CHR ''1'') = 1
   \<and> count_list (concat (map headingLine (outlineSections examplePages (Some exampleOutline)))) (CHR ''1'') = 1
   \<and> count_list (convertToMarkdown examplePages (Some exampleOutline)) (CHR ''1'') = 2
   \<and> nonBlank nestedPages 2
   \<and> includesStr (convertToMarkdown nestedPages (Some nestedOutline)) ''p2''
   \<and> count_list (concat nestedPages) (CHR ''2'')
       + count_list (concat (map headingLine (outlineSections nestedPages (Some nestedOutline)))) (CHR ''2'')
       \<le> count_list (convertToMarkdown nestedPages (Some nestedOutline)) (CHR ''2'')"
proof -
  have a: "nonBlank examplePages 2" by code_simp
  have t: "trim (examplePages ! (2 - 1)) = ''Ch1 body''" by code_simp
  have w: "\<not> isWhiteSpace (CHR ''1'')" by code_simp
  have w2: "\<not> isWhiteSpace (CHR ''2'')" by code_simp
  have b: "singleLevelIncreasing 0 (length examplePages) exampleOutline" by code_simp
  have n1: "count_list (concat examplePages) (CHR ''1'') = 1" by code_simp
  have n2: "count_list (concat (map headingLine (outlineSections examplePages (Some exampleOutline)))) (CHR ''1'') = 1"
    by code_simp
  have d: "nonBlank nestedPages 2" by code_simp
  have t2: "trim (nestedPages ! (2 - 1)) = ''p2''" by code_simp
  note ex = C1_page_content[of examplePages 2 "Some exampleOutline" "CHR ''1''"]
  note ne = C1_page_content[of nestedPages 2 "Some nestedOutline" "CHR ''2''"]
  have i: "includesStr (convertToMarkdown examplePages (Some exampleOutline)) ''Ch1 body''"
    using ex a t by simp
  have c: "nonOverlapping examplePages (Some exampleOutline)"
    using ex b by blast
  have e: "count_list (convertToMarkdown examplePages (Some exampleOutline)) (CHR ''1'') = 2"
    using ex w c n1 n2 by simp
  have i2: "includesStr (convertToMarkdown nestedPages (Some nestedOutline)) ''p2''"
    using ne d t2 by simp
  have f: "count_list (concat nestedPages) (CHR ''2'')
       + count_list (concat (map headingLine (outlineSections nestedPages (Some nestedOutline)))) (CHR ''2'')
       \<le> count_list (convertToMarkdown nestedPages (Some nestedOutline)) (CHR ''2'')"
    using ne w2 by blast
  from a i w b c n1 n2 e d i2 f show ?thesis by blast
qed

text \<open>
  C1 as stated fails on a nested outline: the chapter on page 1 has no next sibling, so its
  section runs to the last page, and the subsection on page 2 puts page 2 a second time.
  The character \<open>2\<close>, which the pages contain once and the heading lines do not
  contain, is twice in the body.
\<close>

theorem C1_counterexample:
  "convertToMarkdown nestedPages (Some nestedOutline) = ''# A\<newline>\<newline>p1\<newline>\<newline>p2\<newline>\<newline>## B\<newline>\<newline>p2''
   \<and> \<not> isWhiteSpace (CHR ''2'')
   \<and> count_list (concat nestedPages) (CHR ''2'') = 1
   \<and> count_list (concat (map headingLine (outlineSections nestedPages (Some nestedOutline)))) (CHR ''2'') = 0
   \<and> count_list (convertToMarkdown nestedPages (Some nestedOutline)) (CHR ''2'') = 2"
  by code_simp

section \<open>Claim C3: the flattened sections\<close>

lemma flattenOutline_siblings:
  "map (\<lambda>s. (sec_title s, sec_level s, startPage s, endPage s)) (flattenOutline n items) =
   map (\<lambda>(item, nextItem). (title item, level item, the (page item), siblingEnd n nextItem))
       (filter (\<lambda>(item, nextItem). hasPage item) (withNextSibling items))"
proof (induction n items rule: flattenOutline.induct)
  case (1 n)
  show ?case by simp
next
  case (2 n t p l ch rest)
  show ?case
    using 2 by (cases rest) (simp_all add: siblingEnd_def)
qed

lemma flattenOutline_single_level:
  assumes "singleLevelResolved items" and "i < length (flattenOutline n items)"
  shows "endPage (flattenOutline n items ! i) =
           (if Suc i < length (flattenOutline n items)
            then startPage (flattenOutline n items ! Suc i) - 1 else n)"
  using assms
proof (induction n items arbitrary: i rule: flattenOutline.induct)
  case (1 n)
  then show ?case by simp
next
  case (2 n t p l ch rest)
  have ch: "ch = []" and hp: "hasPage (OutlineItem t p l ch)" and rest: "singleLevelResolved rest"
    using 2(3) by (auto simp add: singleLevelResolved_def)
  show ?case
  proof (cases i)
    case 0
    show ?thesis
    proof (cases rest)
      case Nil
      then show ?thesis using 0 ch hp by simp
    next
      case (Cons nx rest')
      obtain t' p' l' ch' where nx: "nx = OutlineItem t' p' l' ch'" by (cases nx)
      have "hasPage nx" using rest Cons by (simp add: singleLevelResolved_def)
      then show ?thesis using 0 ch hp Cons nx by simp
    qed
  next
    case (Suc j)
    have j: "j < length (flattenOutline n rest)" using 2(4) Suc ch hp by simp
    show ?thesis using 2(2)[OF rest j] Suc ch hp by simp
  qed
qed

text \<open>
  C3 (as amended). Flattening produces, in depth-first order, one section for every
  outline node with a resolved page; nodes without one are dropped and their children are
  still traversed. The \<open>endPage\<close> of a section is the page of the node's next sibling in
  the same list of children minus 1 when that sibling has a resolved page, and the last
  page of the document otherwise. For a single-level outline whose nodes all have a page,
  this is the \<open>startPage\<close> of the next flattened section minus 1, or the last page when
  no section follows.
\<close>

theorem C3_flatten_sections:
  "map (\<lambda>s. (sec_title s, sec_level s, startPage s, endPage s)) (flattenOutline n items) =
     map (\<lambda>(item, nextItem). (title item, level item, the (page item), siblingEnd n nextItem))
         (filter (\<lambda>(item, nextItem). hasPage item) (withNextSibling items))
   \<and> (singleLevelResolved items \<longrightarrow>
        (\<forall>i<length (flattenOutline n items).
           endPage (flattenOutline n items ! i) =
             (if Suc i < length (flattenOutline n items)
              then startPage (flattenOutline n items ! Suc i) - 1 else n)))"
  using flattenOutline_siblings flattenOutline_single_level by blast

text \<open>
  The single-level example, and the sections of a chapter with a subsection followed by a
  second chapter.
\<close>

theorem C3_flatten_sections_witness:
  "singleLevelResolved exampleOutline
   \<and> 0 < length (flattenOutline 3 exampleOutline)
   \<and> Suc 0 < length (flattenOutline 3 exampleOutline)
   \<and> endPage (flattenOutline 3 exampleOutline ! 0) = startPage (flattenOutline 3 exampleOutline ! Suc 0) - 1
   \<and> map (\<lambda>s. (sec_title s, sec_level s, startPage s, endPage s)) (flattenOutline 3 treeOutline)
       = [(''A'', 0, 1, 2), (''B'', 1, 2, 3), (''C'', 0, 3, 3)]"
proof -
  have a: "singleLevelResolved exampleOutline" by code_simp
  have b: "0 < length (flattenOutline 3 exampleOutline)" by code_simp
  have c: "Suc 0 < length (flattenOutline 3 exampleOutline)" by code_simp
  from C3_flatten_sections[of 3 exampleOutline] a b
  have "endPage (flattenOutline 3 exampleOutline ! 0) =
          (if Suc 0 < length (flattenOutline 3 exampleOutline)
           then startPage (flattenOutline 3 exampleOutline ! Suc 0) - 1 else 3)"
    by blast
  with c have d: "endPage (flattenOutline 3 exampleOutline ! 0) = startPage (flattenOutline 3 exampleOutline ! Suc 0) - 1"
    by simp
  have "map (\<lambda>(item, nextItem). (title item, level item, the (page item), siblingEnd 3 nextItem))
         (filter (\<lambda>(item, nextItem). hasPage item) (withNextSibling treeOutline))
       = [(''A'', 0, 1, 2), (''B'', 1, 2, 3), (''C'', 0, 3, 3)]"
    by code_simp
  with C3_flatten_sections[of 3 treeOutline]
  have e: "map (\<lambda>s. (sec_title s, sec_level s, startPage s, endPage s)) (flattenOutline 3 treeOutline)
       = [(''A'', 0, 1, 2), (''B'', 1, 2, 3), (''C'', 0, 3, 3)]"
    by simp
  from a b c d e show ?thesis by blast
qed

text \<open>
  C3 as stated fails on that tree: the chapter on page 1 ends on page 2 (the page before
  its next sibling), not on the page before its subsection, which is the next flattened
  section; the subsection, a last child, ends on the last page.
\<close>

theorem C3_counterexample:
  "hasPage (treeOutline ! 0)
   \<and> endPage (flattenOutline 3 treeOutline ! 0) \<noteq> startPage (flattenOutline 3 treeOutline ! 1) - 1
   \<and> endPage (flattenOutline 3 treeOutline ! 1) \<noteq> startPage (flattenOutline 3 treeOutline ! 2) - 1"
  by code_simp

section \<open>Facts about the identifiers\<close>






section \<open>Claim C9: loading a locator again\<close>




section \<open>Facts about the search loops\<close>

lemma groupSize_addToGroup: "groupSize (addToGroup m grouped) = Suc (groupSize grouped)"
  by (induction grouped) (auto simp: groupSize_def addToGroup_def)

lemma groupSize_fold: "groupSize (fold addToGroup ms grouped) = groupSize grouped + length ms"
  by (induction ms arbitrary: grouped) (simp_all add: groupSize_addToGroup)

lemma countMatches_groupResults: "countMatches (groupResults ms) = length ms"
proof -
  have "countMatches (map (\<lambda>(sec, sectionMatches). \<lparr>r_page = 0, r_section = sec, r_matches = sectionMatches\<rparr>) g)
        = groupSize g" for g
    by (induction g) (auto simp: countMatches_def groupSize_def)
  then show ?thesis
    using groupSize_fold[of ms "[]"]
    by (auto simp: groupResults_def groupSize_def countMatches_def)
qed

lemma limitTake_Cons:
  "\<not> limitReached maxResults t \<Longrightarrow>
   limitTake maxResults t (x # xs) = x # limitTake maxResults (Suc t) xs"
  by (auto simp: limitTake_def limitReached_def take_Cons' split: option.splits)

lemma limitTake_reached: "limitReached maxResults t \<Longrightarrow> limitTake maxResults t xs = []"
  by (auto simp: limitTake_def limitReached_def split: option.splits)

lemma wellBehavedD:
  "wellBehaved exec md \<Longrightarrow> exec md lastIndex = Some (position, matchedText) \<Longrightarrow>
   lastIndex \<le> length md \<and> lastIndex \<le> position \<and> position + length matchedText \<le> length md"
  unfolding wellBehaved_def by (erule allE[of _ lastIndex]) simp

lemma regexLoop_standardScan:
  assumes "wellBehaved exec md"
  shows "regexLoop exec md maxResults contextChars lastIndex totalMatches matches =
           Some (matches @ map (\<lambda>(position, matchedText). makeMatch md contextChars position (length matchedText) matchedText)
                              (limitTake maxResults totalMatches (standardScan exec md lastIndex)))"
  using assms
proof (induction exec md lastIndex arbitrary: totalMatches matches rule: standardScan.induct)
  case (1 exec md lastIndex)
  note wbh = \<open>wellBehaved exec md\<close>
  show ?case
  proof (cases "exec md lastIndex")
    case None
    then show ?thesis
      by (subst regexLoop.simps, subst standardScan.simps)
         (simp add: limitTake_def split: option.splits)
  next
    case (Some pm)
    obtain position matchedText where pm: "pm = (position, matchedText)" by (cases pm)
    have wb: "lastIndex \<le> length md \<and> lastIndex \<le> position
              \<and> position + length matchedText \<le> length md"
      by (rule wellBehavedD[OF wbh]) (simp add: Some pm)
    let ?L = "if matchedText = [] then position + 1 else position + length matchedText"
    have scan: "standardScan exec md lastIndex = (position, matchedText) # standardScan exec md ?L"
      using Some pm wb by (subst standardScan.simps) simp
    have nextIdx: "(if position = position + length matchedText
                    then position + length matchedText + 1
                    else position + length matchedText) = ?L"
      by auto
    show ?thesis
    proof (cases "limitReached maxResults totalMatches")
      case True
      then show ?thesis using Some pm
        by (subst regexLoop.simps) (simp add: limitTake_reached)
    next
      case False
      have ih: "regexLoop exec md maxResults contextChars ?L (Suc totalMatches)
                  (matches @ [makeMatch md contextChars position (length matchedText) matchedText]) =
                Some ((matches @ [makeMatch md contextChars position (length matchedText) matchedText])
                      @ map (\<lambda>(position, matchedText). makeMatch md contextChars position (length matchedText) matchedText)
                            (limitTake maxResults (Suc totalMatches) (standardScan exec md ?L)))"
        using 1(1)[OF Some pm[symmetric] wb wbh] .
      show ?thesis
        using Some pm False ih scan
        by (subst regexLoop.simps) (simp add: limitTake_Cons nextIdx del: if_split cong: if_cong)
    qed
  qed
qed

lemma standardScan_length: "length (standardScan exec md lastIndex) \<le> Suc (length md) - lastIndex"
proof (induction exec md lastIndex rule: standardScan.induct)
  case (1 exec md lastIndex)
  show ?case
  proof (cases "exec md lastIndex")
    case None
    then show ?thesis by (subst standardScan.simps) simp
  next
    case (Some pm)
    obtain position matchedText where pm: "pm = (position, matchedText)" by (cases pm)
    show ?thesis
    proof (cases "lastIndex \<le> length md \<and> lastIndex \<le> position
              \<and> position + length matchedText \<le> length md")
      case True
      show ?thesis
        using 1[OF Some pm[symmetric] True] Some pm True
        by (subst standardScan.simps) (auto split: if_splits simp: neq_Nil_conv)
    next
      case False
      then show ?thesis using Some pm by (subst standardScan.simps) auto
    qed
  qed
qed

lemma limitTake_length: "length (limitTake maxResults t xs) \<le> length xs"
  by (simp add: limitTake_def split: option.splits)

lemma regexLoop_limited:
  assumes "regexLoop exec md None contextChars lastIndex totalMatches matches = Some r"
  shows "take (length matches) r = matches \<and>
         (\<forall>k\<ge>1. regexLoop exec md (Some k) contextChars lastIndex totalMatches matches
                  = Some (take (length matches + (k - totalMatches)) r))"
proof -
  have "maxResults = None \<longrightarrow>
        take (length matches) r = matches \<and>
         (\<forall>k\<ge>1. regexLoop exec md (Some k) contextChars lastIndex totalMatches matches
                  = Some (take (length matches + (k - totalMatches)) r))"
    if "regexLoop exec md maxResults contextChars lastIndex totalMatches matches = Some r"
    for maxResults
  proof (rule regexLoop.raw_induct[where P = "\<lambda>exec md maxResults contextChars lastIndex totalMatches matches r.
       maxResults = None \<longrightarrow>
        take (length matches) r = matches \<and>
         (\<forall>k\<ge>1. regexLoop exec md (Some k) contextChars lastIndex totalMatches matches
                  = Some (take (length matches + (k - totalMatches)) r))", OF _ that], goal_cases)
    case (1 loop exec md maxResults contextChars lastIndex totalMatches matches r)
    show ?case
    proof
      assume mr: "maxResults = None"
      show "take (length matches) r = matches \<and>
         (\<forall>k\<ge>1. regexLoop exec md (Some k) contextChars lastIndex totalMatches matches
                  = Some (take (length matches + (k - totalMatches)) r))"
  proof (cases "exec md lastIndex")
    case None
    then have "r = matches" using 1(2) by simp
    then show ?thesis using None by (subst regexLoop.simps) simp
  next
    case (Some pm)
    obtain position matchedText where pm: "pm = (position, matchedText)" by (cases pm)
    let ?L = "if position = position + length matchedText
              then position + length matchedText + 1 else position + length matchedText"
    let ?ms = "matches @ [makeMatch md contextChars position (length matchedText) matchedText]"
    have rec: "loop exec md maxResults contextChars ?L (totalMatches + 1) ?ms = Some r"
      using 1(2) mr Some pm by (simp add: limitReached_def)
    have both: "take (length ?ms) r = ?ms \<and>
        (\<forall>k\<ge>1. regexLoop exec md (Some k) contextChars ?L (totalMatches + 1) ?ms
                  = Some (take (length ?ms + (k - (totalMatches + 1))) r))"
      using 1(1)[OF rec] mr by (rule mp)
    have ih: "take (length ?ms) r = ?ms"
      using both by (rule conjunct1)
    have ihk: "regexLoop exec md (Some k) contextChars ?L (totalMatches + 1) ?ms
                  = Some (take (length ?ms + (k - (totalMatches + 1))) r)" if "k \<ge> 1" for k
      using both[THEN conjunct2, THEN spec, THEN mp, OF that] .
    have pre: "take (length matches) r = matches"
    proof -
      have "take (length matches) (take (length ?ms) r) = take (length matches) ?ms"
        by (simp only: ih)
      then show ?thesis by simp
    qed
    have "regexLoop exec md (Some k) contextChars lastIndex totalMatches matches
                  = Some (take (length matches + (k - totalMatches)) r)" if k: "k \<ge> 1" for k
    proof (cases "limitReached (Some k) totalMatches")
      case True
      then have "k - totalMatches = 0" by (simp add: limitReached_def)
      then show ?thesis using True Some pm pre by (subst regexLoop.simps) simp
    next
      case False
      then have len: "length ?ms + (k - (totalMatches + 1)) = length matches + (k - totalMatches)"
        using k by (simp add: limitReached_def)
      have step: "regexLoop exec md (Some k) contextChars lastIndex totalMatches matches
                  = regexLoop exec md (Some k) contextChars ?L (totalMatches + 1) ?ms"
        using False Some pm by (subst regexLoop.simps) (simp del: if_split cong: if_cong)
      show ?thesis by (simp only: step ihk[OF k] len)
    qed
    then show ?thesis using pre by simp
  qed
    qed
  qed
  from this[OF assms] show ?thesis by simp
qed

lemma literalLoop_limited:
  assumes "literalLoop md markdownText searchText query None contextChars position totalMatches matches = Some r"
  shows "take (length matches) r = matches \<and>
         (\<forall>k\<ge>1. literalLoop md markdownText searchText query (Some k) contextChars position totalMatches matches
                  = Some (take (length matches + (k - totalMatches)) r))"
proof -
  have "maxResults = None \<longrightarrow>
        take (length matches) r = matches \<and>
         (\<forall>k\<ge>1. literalLoop md markdownText searchText query (Some k) contextChars position totalMatches matches
                  = Some (take (length matches + (k - totalMatches)) r))"
    if "literalLoop md markdownText searchText query maxResults contextChars position totalMatches matches = Some r"
    for maxResults
  proof (rule literalLoop.raw_induct[where P = "\<lambda>md markdownText searchText query maxResults contextChars position totalMatches matches r.
       maxResults = None \<longrightarrow>
        take (length matches) r = matches \<and>
         (\<forall>k\<ge>1. literalLoop md markdownText searchText query (Some k) contextChars position totalMatches matches
                  = Some (take (length matches + (k - totalMatches)) r))", OF _ that], goal_cases)
    case (1 loop md markdownText searchText query maxResults contextChars position totalMatches matches r)
    show ?case
    proof
      assume mr: "maxResults = None"
      show "take (length matches) r = matches \<and>
         (\<forall>k\<ge>1. literalLoop md markdownText searchText query (Some k) contextChars position totalMatches matches
                  = Some (take (length matches + (k - totalMatches)) r))"
  proof (cases "indexOf markdownText searchText position")
    case None
    then have "r = matches" using 1(2) by simp
    then show ?thesis using None by (subst literalLoop.simps) simp
  next
    case (Some found)
    let ?ms = "matches @ [makeMatch md contextChars found (length query) (substring md found (found + length query))]"
    have rec: "loop md markdownText searchText query maxResults contextChars (found + length query)
                 (totalMatches + 1) ?ms = Some r"
      using 1(2) mr Some by (simp add: limitReached_def)
    have both: "take (length ?ms) r = ?ms \<and>
        (\<forall>k\<ge>1. literalLoop md markdownText searchText query (Some k) contextChars
                    (found + length query) (totalMatches + 1) ?ms
                  = Some (take (length ?ms + (k - (totalMatches + 1))) r))"
      using 1(1)[OF rec] mr by (rule mp)
    have ih: "take (length ?ms) r = ?ms"
      using both by (rule conjunct1)
    have ihk: "literalLoop md markdownText searchText query (Some k) contextChars
                    (found + length query) (totalMatches + 1) ?ms
                  = Some (take (length ?ms + (k - (totalMatches + 1))) r)" if "k \<ge> 1" for k
      using both[THEN conjunct2, THEN spec, THEN mp, OF that] .
    have pre: "take (length matches) r = matches"
    proof -
      have "take (length matches) (take (length ?ms) r) = take (length matches) ?ms"
        by (simp only: ih)
      then show ?thesis by simp
    qed
    have "literalLoop md markdownText searchText query (Some k) contextChars position totalMatches matches
                  = Some (take (length matches + (k - totalMatches)) r)" if k: "k \<ge> 1" for k
    proof (cases "limitReached (Some k) totalMatches")
      case True
      then have "k - totalMatches = 0" by (simp add: limitReached_def)
      then show ?thesis using True Some pre by (subst literalLoop.simps) simp
    next
      case False
      then have len: "length ?ms + (k - (totalMatches + 1)) = length matches + (k - totalMatches)"
        using k by (simp add: limitReached_def)
      have step: "literalLoop md markdownText searchText query (Some k) contextChars position totalMatches matches
                  = literalLoop md markdownText searchText query (Some k) contextChars
                      (found + length query) (totalMatches + 1) ?ms"
        using False Some by (subst literalLoop.simps) simp
      show ?thesis by (simp only: step ihk[OF k] len)
    qed
    then show ?thesis using pre by simp
  qed
    qed
  qed
  from this[OF assms] show ?thesis by simp
qed

lemma wellBehaved_execAStar: "wellBehaved execAStar md"
proof -
  have h: "length (takeWhile P (drop i md)) \<le> length md - i" for P i
    using length_takeWhile_le[of P "drop i md"] by simp
  show ?thesis
    unfolding wellBehaved_def execAStar_def
  proof (intro allI)
    fix lastIndex
    show "case (if lastIndex \<le> length md
                then Some (lastIndex, takeWhile (\<lambda>c. c = CHR ''a'') (drop lastIndex md))
                else None) of
            None \<Rightarrow> True
          | Some (position, matchedText) \<Rightarrow>
              lastIndex \<le> length md \<and> lastIndex \<le> position
              \<and> position + length matchedText \<le> length md"
      using h[of "\<lambda>c. c = CHR ''a''" lastIndex] by auto
  qed
qed

lemma literalLoop_empty_query:
  "literalLoop md markdownText [] query None contextChars position totalMatches matches = None"
proof (cases "literalLoop md markdownText [] query None contextChars position totalMatches matches")
  case None
  then show ?thesis .
next
  case (Some r)
  have found: "indexOf markdownText [] position \<noteq> None" for markdownText position
    by (auto simp: indexOf_def startsWith_def find_None_iff simp del: upt_Suc
             intro!: exI[of _ "min position (length markdownText)"])
  have "searchText = [] \<and> maxResults = None \<longrightarrow> False"
    if "literalLoop md markdownText searchText query maxResults contextChars position totalMatches matches = Some r"
    for searchText maxResults
  proof (rule literalLoop.raw_induct[where P = "\<lambda>md markdownText searchText query maxResults contextChars position totalMatches matches r.
          searchText = [] \<and> maxResults = None \<longrightarrow> False", OF _ that], goal_cases)
    case (1 loop md markdownText searchText query maxResults contextChars position totalMatches matches r)
    show ?case
    proof (intro impI, elim conjE)
      assume st: "searchText = []" and mr: "maxResults = None"
      obtain f where f: "indexOf markdownText [] position = Some f"
        using found[of markdownText position] by auto
      from 1(2) f st mr
      have "loop md markdownText [] query None contextChars (f + length query) (totalMatches + 1)
              (matches @ [makeMatch md contextChars f (length query) (substring md f (f + length query))]) = Some r"
        by (simp add: limitReached_def)
      from 1(1)[OF this] show False by simp
    qed
  qed
  from this[OF Some] show ?thesis by simp
qed

lemma indexOf_Some:
  assumes "indexOf s t from = Some found"
  shows "min from (length s) \<le> found \<and> found \<le> length s \<and> startsWith (drop found s) t"
proof -
  from assms have "found \<in> set [min from (length s)..<Suc (length s)] \<and> startsWith (drop found s) t"
    unfolding indexOf_def find_Some_iff by (metis nth_mem)
  then show ?thesis by (auto simp del: upt_Suc)
qed

lemma indexOf_empty: "indexOf s [] from = Some (min from (length s))"
proof -
  have "[min from (length s)..<Suc (length s)] = min from (length s) # [Suc (min from (length s))..<Suc (length s)]"
    by (rule upt_conv_Cons) simp
  then show ?thesis by (simp add: indexOf_def startsWith_def del: upt_Suc)
qed

lemma literalLoop_ends:
  assumes "searchText \<noteq> []" and "query \<noteq> []"
  shows "\<exists>r. literalLoop md markdownText searchText query maxResults contextChars position totalMatches matches = Some r"
proof (induction "Suc (length markdownText) - position" arbitrary: position totalMatches matches rule: less_induct)
  case less
  show ?case
  proof (cases "indexOf markdownText searchText position")
    case None
    then show ?thesis by (subst literalLoop.simps) simp
  next
    case (Some found)
    show ?thesis
    proof (cases "limitReached maxResults totalMatches")
      case True
      then show ?thesis using Some by (subst literalLoop.simps) simp
    next
      case False
      have f: "min position (length markdownText) \<le> found" "startsWith (drop found markdownText) searchText"
        using indexOf_Some[OF Some] by simp_all
      have "drop found markdownText \<noteq> []"
        using f(2) assms(1) by (auto simp: startsWith_def)
      then have "found < length markdownText" by simp
      then have "Suc (length markdownText) - (found + length query) < Suc (length markdownText) - position"
        using f(1) assms(2) by (cases query) (auto simp: min_def split: if_splits)
      from less[OF this] show ?thesis
        using Some False by (subst literalLoop.simps) simp
    qed
  qed
qed

lemma literalLoop_empty_limited:
  assumes "1 \<le> k" and "position \<le> length markdownText"
  shows "literalLoop md markdownText [] [] (Some k) contextChars position totalMatches matches
           = Some (matches @ replicate (k - totalMatches) (makeMatch md contextChars position 0 []))"
proof (induction "k - totalMatches" arbitrary: totalMatches matches)
  case 0
  then have "limitReached (Some k) totalMatches" using assms(1) by (simp add: limitReached_def)
  then show ?case using 0 indexOf_empty[of markdownText position]
    by (subst literalLoop.simps) simp
next
  case (Suc n)
  have nr: "\<not> limitReached (Some k) totalMatches" using Suc(2) by (auto simp: limitReached_def)
  have n: "n = k - (totalMatches + 1)" using Suc(2) by simp
  have found: "indexOf markdownText [] position = Some position"
    using indexOf_empty[of markdownText position] assms(2) by (simp add: min_def)
  have k: "k - totalMatches = Suc (k - (totalMatches + 1))" using Suc(2) by simp
  show ?case
    using Suc(1)[OF n, of "matches @ [makeMatch md contextChars position 0 []]"] nr found
    by (subst literalLoop.simps) (simp add: substring_def k replicate_app_Cons_same)
qed

lemma searchPDF_grouped:
  "searchMatches rt loadedPDFs pdfId query caseSensitive regex maxResults contextChars = Some (Inr r) \<Longrightarrow>
   searchPDF rt loadedPDFs pdfId query caseSensitive regex maxResults contextChars = Some (Inr (groupResults r))"
  by (simp add: searchPDF_def)

lemma searchMatches_limited:
  assumes "1 \<le> k"
    and "searchMatches rt loadedPDFs pdfId query caseSensitive regex None contextChars = Some (Inr r)"
  shows "searchMatches rt loadedPDFs pdfId query caseSensitive regex (Some k) contextChars = Some (Inr (take k r))"
proof -
  obtain pdf where pdf: "loadedPDFs pdfId = Some pdf"
    using assms(2) by (cases "loadedPDFs pdfId") (simp_all add: searchMatches_def)
  show ?thesis
  proof (cases regex)
    case True
    obtain exec where exec: "regexCompile rt query caseSensitive = Some exec"
      using assms(2) pdf True by (cases "regexCompile rt query caseSensitive") (simp_all add: searchMatches_def)
    have r: "regexLoop exec (pdf_markdown pdf) None contextChars 0 0 [] = Some r"
      using assms(2) pdf True exec by (auto simp: searchMatches_def)
    have "regexLoop exec (pdf_markdown pdf) (Some k) contextChars 0 0 [] = Some (take k r)"
      using regexLoop_limited[OF r] assms(1) by simp
    then show ?thesis
      using pdf True exec by (simp add: searchMatches_def)
  next
    case False
    let ?searchText = "if caseSensitive then query else toLowerCase query"
    let ?markdownText = "if caseSensitive then pdf_markdown pdf else toLowerCase (pdf_markdown pdf)"
    have r: "literalLoop (pdf_markdown pdf) ?markdownText ?searchText query None contextChars 0 0 [] = Some r"
      using assms(2) pdf False by (auto simp: searchMatches_def Let_def)
    have "literalLoop (pdf_markdown pdf) ?markdownText ?searchText query (Some k) contextChars 0 0 [] = Some (take k r)"
      using literalLoop_limited[OF r] assms(1) by simp
    then show ?thesis
      using pdf False by (simp add: searchMatches_def Let_def)
  qed
qed

lemma searchMatches_ends:
  assumes "loadedPDFs pdfId = Some pdf"
    and "if regex then \<exists>exec. regexCompile rt query caseSensitive = Some exec \<and> wellBehaved exec (pdf_markdown pdf)
         else query \<noteq> []"
  shows "\<exists>r. searchMatches rt loadedPDFs pdfId query caseSensitive regex maxResults contextChars = Some (Inr r)"
proof (cases regex)
  case True
  then obtain exec where exec: "regexCompile rt query caseSensitive = Some exec"
    and wb: "wellBehaved exec (pdf_markdown pdf)"
    using assms(2) by auto
  show ?thesis
    using regexLoop_standardScan[OF wb, of maxResults contextChars 0 0 "[]"] assms(1) True exec
    by (simp add: searchMatches_def)
next
  case False
  then have q: "query \<noteq> []" using assms(2) by simp
  let ?searchText = "if caseSensitive then query else toLowerCase query"
  let ?markdownText = "if caseSensitive then pdf_markdown pdf else toLowerCase (pdf_markdown pdf)"
  have st: "?searchText \<noteq> []" using q by (simp add: toLowerCase_def)
  obtain r where "literalLoop (pdf_markdown pdf) ?markdownText ?searchText query maxResults contextChars 0 0 [] = Some r"
    using literalLoop_ends[OF st q] by blast
  then show ?thesis
    using assms(1) False by (simp add: searchMatches_def Let_def)
qed

lemma searchMatches_empty_query:
  assumes "loadedPDFs pdfId = Some pdf"
  shows "searchMatches rt loadedPDFs pdfId [] caseSensitive False None contextChars = None"
    and "1 \<le> k \<Longrightarrow> searchMatches rt loadedPDFs pdfId [] caseSensitive False (Some k) contextChars
           = Some (Inr (replicate k (makeMatch (pdf_markdown pdf) contextChars 0 0 [])))"
proof -
  show "searchMatches rt loadedPDFs pdfId [] caseSensitive False None contextChars = None"
    using assms literalLoop_empty_query by (simp add: searchMatches_def Let_def toLowerCase_def)
  show "searchMatches rt loadedPDFs pdfId [] caseSensitive False (Some k) contextChars
           = Some (Inr (replicate k (makeMatch (pdf_markdown pdf) contextChars 0 0 [])))" if "1 \<le> k"
    using assms literalLoop_empty_limited[OF that, of 0 _ "pdf_markdown pdf" contextChars 0 "[]"]
    by (simp add: searchMatches_def Let_def toLowerCase_def)
qed

section \<open>Claim C8: matches of length zero\<close>

text \<open>
  C8. For every body text and every regular expression, also one that matches with length
  zero, the regular-expression scan of \<open>searchPDF\<close> terminates, with or without a limit:
  a match of length zero moves \<open>lastIndex\<close> one position on. The number of matches it
  returns is finite, at most the length of the text plus one, and without a limit it is
  the number of matches of the standard scan. The engine is any \<open>exec\<close> that keeps its
  guarantees: a match lies at or after \<open>lastIndex\<close> and within the text.
\<close>

theorem C8_regex_scan_terminates:
  assumes "loadedPDFs pdfId = Some pdf"
    and "regexCompile rt query caseSensitive = Some exec"
    and "wellBehaved exec (pdf_markdown pdf)"
  shows "\<exists>results.
           searchPDF rt loadedPDFs pdfId query caseSensitive True maxResults contextChars
             = Some (Inr results)
           \<and> countMatches results \<le> Suc (length (pdf_markdown pdf))
           \<and> (maxResults = None \<longrightarrow>
                countMatches results = length (standardScan exec (pdf_markdown pdf) 0))"
proof -
  let ?md = "pdf_markdown pdf"
  let ?ms = "map (\<lambda>(position, matchedText). makeMatch ?md contextChars position (length matchedText) matchedText)
               (limitTake maxResults 0 (standardScan exec ?md 0))"
  have loop: "regexLoop exec ?md maxResults contextChars 0 0 [] = Some ?ms"
    using regexLoop_standardScan[OF assms(3), of maxResults contextChars 0 0 "[]"] by simp
  have res: "searchPDF rt loadedPDFs pdfId query caseSensitive True maxResults contextChars
             = Some (Inr (groupResults ?ms))"
    using assms(1,2) loop by (simp add: searchPDF_def searchMatches_def)
  have "length ?ms \<le> length (standardScan exec ?md 0)"
    using limitTake_length[of maxResults 0 "standardScan exec ?md 0"] by simp
  also have "\<dots> \<le> Suc (length ?md)"
    using standardScan_length[of exec ?md 0] by simp
  finally have bound: "countMatches (groupResults ?ms) \<le> Suc (length ?md)"
    by (simp add: countMatches_groupResults)
  have exact: "countMatches (groupResults ?ms) = length (standardScan exec ?md 0)"
    if "maxResults = None"
    using that by (simp add: countMatches_groupResults limitTake_def)
  from res bound exact show ?thesis by blast
qed

text \<open>
  The expression \<open>a*\<close> matches with length zero wherever no \<open>a\<close> stands; on the sample
  document of 29 characters the scan ends with 28 matches.
\<close>

theorem C8_regex_scan_terminates_witness:
  "sampleRegistry ''doc'' = Some samplePDF
   \<and> regexCompile regexRuntime ''a*'' False = Some execAStar
   \<and> wellBehaved execAStar (pdf_markdown samplePDF)
   \<and> (\<exists>results.
         searchPDF regexRuntime sampleRegistry ''doc'' ''a*'' False True None 0 = Some (Inr results)
         \<and> countMatches results = 28)"
proof -
  have a: "sampleRegistry ''doc'' = Some samplePDF" by (simp add: sampleRegistry_def)
  have b: "regexCompile regexRuntime ''a*'' False = Some execAStar" by (simp add: regexRuntime_def)
  have c: "wellBehaved execAStar (pdf_markdown samplePDF)" by (rule wellBehaved_execAStar)
  have n: "length (standardScan execAStar (pdf_markdown samplePDF) 0) = 28" by code_simp
  from C8_regex_scan_terminates[where loadedPDFs = sampleRegistry and pdfId = "''doc''"
         and rt = regexRuntime and query = "''a*''" and caseSensitive = False
         and maxResults = None and contextChars = 0, OF a b c] n
  have "\<exists>results.
         searchPDF regexRuntime sampleRegistry ''doc'' ''a*'' False True None 0 = Some (Inr results)
         \<and> countMatches results = 28"
    by auto
  with a b c show ?thesis by blast
qed

section \<open>Claim C6: the limit on the matches\<close>

text \<open>
  C6 (as amended). For every loaded document, query and limit \<open>k \<ge> 1\<close> (a
  regular expression being one that compiles, on an engine that keeps its guarantees):
  unless the query is the empty literal string, the unlimited search ends, with the
  matches \<open>r\<close>, and the search with \<open>maxResults = k\<close> ends too and returns the
  groups of the first \<open>k\<close> matches of \<open>r\<close>, partial groups included: exactly
  \<open>min(k, totalMatches)\<close> match entries across its groups. For the empty literal
  query the unlimited search never ends, and the search with \<open>maxResults = k\<close>
  returns exactly \<open>k\<close> entries, all of them the empty match at position 0.
\<close>

theorem C6_limit:
  assumes "1 \<le> k"
    and "loadedPDFs pdfId = Some pdf"
    and "regex \<longrightarrow> (\<exists>exec. regexCompile rt query caseSensitive = Some exec
                           \<and> wellBehaved exec (pdf_markdown pdf))"
  shows "if \<not> regex \<and> query = []
         then searchPDF rt loadedPDFs pdfId query caseSensitive regex None contextChars = None
              \<and> searchPDF rt loadedPDFs pdfId query caseSensitive regex (Some k) contextChars
                  = Some (Inr (groupResults (replicate k (makeMatch (pdf_markdown pdf) contextChars 0 0 []))))
              \<and> countMatches (groupResults (replicate k (makeMatch (pdf_markdown pdf) contextChars 0 0 []))) = k
         else (\<exists>r. searchMatches rt loadedPDFs pdfId query caseSensitive regex None contextChars
                      = Some (Inr r)
                  \<and> searchPDF rt loadedPDFs pdfId query caseSensitive regex None contextChars
                      = Some (Inr (groupResults r))
                  \<and> searchPDF rt loadedPDFs pdfId query caseSensitive regex (Some k) contextChars
                      = Some (Inr (groupResults (take k r)))
                  \<and> countMatches (groupResults (take k r)) = min k (countMatches (groupResults r)))"
proof (cases "\<not> regex \<and> query = []")
  case True
  then have rq: "regex = False" "query = []" by simp_all
  have none: "searchPDF rt loadedPDFs pdfId [] caseSensitive False None contextChars = None"
    using searchMatches_empty_query(1)[where loadedPDFs = loadedPDFs and pdfId = pdfId, OF assms(2)]
    by (simp add: searchPDF_def)
  have some: "searchPDF rt loadedPDFs pdfId [] caseSensitive False (Some k) contextChars
                = Some (Inr (groupResults (replicate k (makeMatch (pdf_markdown pdf) contextChars 0 0 []))))"
    by (rule searchPDF_grouped)
       (rule searchMatches_empty_query(2)[where loadedPDFs = loadedPDFs and pdfId = pdfId,
          OF assms(2) assms(1)])
  show ?thesis
    using none some by (simp add: rq countMatches_groupResults)
next
  case False
  then have cond: "if regex then \<exists>exec. regexCompile rt query caseSensitive = Some exec
                                  \<and> wellBehaved exec (pdf_markdown pdf)
                   else query \<noteq> []"
    using assms(3) by auto
  obtain r where r: "searchMatches rt loadedPDFs pdfId query caseSensitive regex None contextChars
                      = Some (Inr r)"
    using searchMatches_ends[where loadedPDFs = loadedPDFs and pdfId = pdfId, OF assms(2) cond]
    by blast
  have lim: "searchMatches rt loadedPDFs pdfId query caseSensitive regex (Some k) contextChars
               = Some (Inr (take k r))"
    by (rule searchMatches_limited[OF assms(1) r])
  have cnt: "countMatches (groupResults (take k r)) = min k (countMatches (groupResults r))"
    by (simp add: countMatches_groupResults min.commute)
  have "\<exists>r. searchMatches rt loadedPDFs pdfId query caseSensitive regex None contextChars = Some (Inr r)
        \<and> searchPDF rt loadedPDFs pdfId query caseSensitive regex None contextChars
            = Some (Inr (groupResults r))
        \<and> searchPDF rt loadedPDFs pdfId query caseSensitive regex (Some k) contextChars
            = Some (Inr (groupResults (take k r)))
        \<and> countMatches (groupResults (take k r)) = min k (countMatches (groupResults r))"
    using r searchPDF_grouped[OF r] searchPDF_grouped[OF lim] cnt by (intro exI[of _ r]) simp
  then show ?thesis using False by (simp only: if_False)
qed

text \<open>
  In the sample document the literal search for \<open>a\<close> finds seven matches, and with
  the limit 3 it returns the first three, the third in a partial group; the expression
  \<open>a*\<close> and the empty literal query with the limit 3 are the two other cases.
\<close>

theorem C6_limit_witness:
  "(1::nat) \<le> 3
   \<and> sampleRegistry ''doc'' = Some samplePDF
   \<and> searchMatches regexRuntime sampleRegistry ''doc'' ''a'' False False None 0
       = Some (Inr sampleMatches)
   \<and> searchPDF regexRuntime sampleRegistry ''doc'' ''a'' False False (Some 3) 0
       = Some (Inr [\<lparr>r_page = 0, r_section = ''Document Start'', r_matches = [(''A'', ''A'')]\<rparr>,
                    \<lparr>r_page = 0, r_section = ''Alph'', r_matches = [(''a'', ''a'')]\<rparr>,
                    \<lparr>r_page = 0, r_section = ''Alpha'', r_matches = [(''a'', ''a'')]\<rparr>])
   \<and> countMatches (groupResults (take 3 sampleMatches)) = min 3 (countMatches (groupResults sampleMatches))
   \<and> regexCompile regexRuntime ''a*'' False = Some execAStar
   \<and> wellBehaved execAStar (pdf_markdown samplePDF)
   \<and> (\<exists>r. searchMatches regexRuntime sampleRegistry ''doc'' ''a*'' False True None 0 = Some (Inr r)
            \<and> searchPDF regexRuntime sampleRegistry ''doc'' ''a*'' False True (Some 3) 0
                = Some (Inr (groupResults (take 3 r))))
   \<and> searchPDF regexRuntime sampleRegistry ''doc'' [] False False None 0 = None
   \<and> searchPDF regexRuntime sampleRegistry ''doc'' [] False False (Some 3) 0
       = Some (Inr [\<lparr>r_page = 0, r_section = ''Document Start'',
                     r_matches = [([], []), ([], []), ([], [])]\<rparr>])"
proof -
  have k: "(1::nat) \<le> 3" by simp
  have a: "sampleRegistry ''doc'' = Some samplePDF" by (simp add: sampleRegistry_def)
  have b: "regexCompile regexRuntime ''a*'' False = Some execAStar" by (simp add: regexRuntime_def)
  have c: "wellBehaved execAStar (pdf_markdown samplePDF)" by (rule wellBehaved_execAStar)
  have all: "searchMatches regexRuntime sampleRegistry ''doc'' ''a'' False False None 0
               = Some (Inr sampleMatches)"
    by code_simp
  have g3: "groupResults (take 3 sampleMatches)
              = [\<lparr>r_page = 0, r_section = ''Document Start'', r_matches = [(''A'', ''A'')]\<rparr>,
                 \<lparr>r_page = 0, r_section = ''Alph'', r_matches = [(''a'', ''a'')]\<rparr>,
                 \<lparr>r_page = 0, r_section = ''Alpha'', r_matches = [(''a'', ''a'')]\<rparr>]"
    by code_simp
  have e3: "groupResults (replicate 3 (makeMatch (pdf_markdown samplePDF) 0 0 0 []))
              = [\<lparr>r_page = 0, r_section = ''Document Start'',
                  r_matches = [([], []), ([], []), ([], [])]\<rparr>]"
    by code_simp
  have lit: "searchPDF regexRuntime sampleRegistry ''doc'' ''a'' False False (Some 3) 0
               = Some (Inr (groupResults (take 3 sampleMatches)))
             \<and> countMatches (groupResults (take 3 sampleMatches))
               = min 3 (countMatches (groupResults sampleMatches))"
    using C6_limit[where k = 3 and loadedPDFs = sampleRegistry and pdfId = "''doc''" and pdf = samplePDF
           and rt = regexRuntime and query = "''a''" and caseSensitive = False and regex = False
           and contextChars = 0, OF k a] all
    by simp
  have re: "\<exists>r. searchMatches regexRuntime sampleRegistry ''doc'' ''a*'' False True None 0 = Some (Inr r)
            \<and> searchPDF regexRuntime sampleRegistry ''doc'' ''a*'' False True (Some 3) 0
                = Some (Inr (groupResults (take 3 r)))"
    using C6_limit[where k = 3 and loadedPDFs = sampleRegistry and pdfId = "''doc''" and pdf = samplePDF
           and rt = regexRuntime and query = "''a*''" and caseSensitive = False and regex = True
           and contextChars = 0, OF k a] b c
    by auto
  have em: "searchPDF regexRuntime sampleRegistry ''doc'' [] False False None 0 = None
            \<and> searchPDF regexRuntime sampleRegistry ''doc'' [] False False (Some 3) 0
                = Some (Inr (groupResults (replicate 3 (makeMatch (pdf_markdown samplePDF) 0 0 0 []))))"
    using C6_limit[where k = 3 and loadedPDFs = sampleRegistry and pdfId = "''doc''" and pdf = samplePDF
           and rt = regexRuntime and query = "[]" and caseSensitive = False and regex = False
           and contextChars = 0, OF k a]
    by simp
  show ?thesis
    using k a all lit b c re em by (simp only: g3 e3 simp_thms)
qed

text \<open>
  C6 as stated fails for the limit 0, which the loop reads as no limit: the search returns
  all seven matches.
\<close>

theorem C6_counterexample:
  "searchPDF regexRuntime sampleRegistry ''doc'' ''a'' False False None 0 = Some (Inr sampleAllResults)
   \<and> searchPDF regexRuntime sampleRegistry ''doc'' ''a'' False False (Some 0) 0 = Some (Inr sampleAllResults)
   \<and> countMatches sampleAllResults \<noteq> min 0 (countMatches sampleAllResults)"
  by code_simp

section \<open>Facts about the lookup of a section\<close>

lemma lowerChar_whiteSpace: "isWhiteSpace c \<Longrightarrow> lowerChar c = c"
  by (auto simp: isWhiteSpace_def lowerChar_def Let_def)

lemma trim_whiteSpace: "list_all isWhiteSpace s \<Longrightarrow> trim (toLowerCase s) = []"
proof -
  assume a: "list_all isWhiteSpace s"
  then have lc: "toLowerCase s = s"
    by (induction s) (simp_all add: toLowerCase_def lowerChar_whiteSpace)
  have d: "dropWhile isWhiteSpace s = []"
    using a by (induction s) simp_all
  show ?thesis by (simp only: trim_def lc d) simp
qed

lemma includesStr_empty: "includesStr s []"
  by (simp add: includesStr_def startsWith_def list_ex_iff del: upt_Suc) (use zero_less_Suc in blast)

lemma trim_keeps_head:
  assumes "\<not> isWhiteSpace c"
  shows "\<exists>r. trim (c # s) = c # r"
proof -
  have "dropWhile isWhiteSpace (rev s @ [c]) \<noteq> [] \<and> last (dropWhile isWhiteSpace (rev s @ [c])) = c"
    using assms by (simp add: dropWhile_append)
  then obtain ys where "dropWhile isWhiteSpace (rev s @ [c]) = ys @ [c]"
    by (metis append_butlast_last_id)
  then show ?thesis using assms by (simp add: trim_def)
qed

lemma headingMatch_starts_with_hash:
  "headingMatch line = Some x \<Longrightarrow> \<exists>r. line = HASH # r"
  by (cases line) (auto simp: headingMatch_def Let_def split: if_splits)

lemma not_whiteSpace_hash: "\<not> isWhiteSpace HASH"
  by (simp add: isWhiteSpace_def)

lemma paginateLoop_nonempty:
  "cur \<noteq> [] \<or> pages \<noteq> [] \<Longrightarrow> paginateLoop B ps cur pages \<noteq> []"
  by (induction B ps cur pages rule: paginateLoop.induct) auto

lemma splitOn_head_nonempty:
  assumes "c \<noteq> NL"
  shows "\<exists>l ls. splitOn [NL, NL] (c # s) = (c # l) # ls"
proof -
  obtain y ys where "splitOn [NL, NL] s = y # ys"
    using splitOn_nonempty[of "[NL, NL]" s] by (cases "splitOn [NL, NL] s") auto
  then show ?thesis using assms
    by (subst splitOn.simps) (simp add: startsWith_def)
qed

lemma paginateContent_nonempty:
  assumes "c \<noteq> NL"
  shows "paginateContent (c # s) B \<noteq> []"
proof (cases "length (c # s) \<le> B")
  case True
  then show ?thesis by (simp add: paginateContent_def)
next
  case False
  obtain l ls where sp: "splitOn [NL, NL] (c # s) = (c # l) # ls"
    using splitOn_head_nonempty[OF assms] by blast
  have "paginateLoop B ((c # l) # ls) [] [] \<noteq> []"
    by (simp add: paginateLoop_nonempty)
  then show ?thesis using False sp by (simp add: paginateContent_def)
qed

lemma headingScan_started:
  "headingScan q lines i (Some s, lv, e, mt) =
     (Some s, lv,
      (if list_all (deeperThan lv) lines then e
       else i + length (takeWhile (deeperThan lv) lines)), mt)"
proof (induction lines arbitrary: i)
  case Nil
  show ?case by simp
next
  case (Cons line rest)
  show ?case
  proof (cases "headingMatch line")
    case None
    then show ?thesis using Cons.IH[of "Suc i"] by (simp add: deeperThan_def)
  next
    case (Some ht)
    obtain hashes rawTitle where ht: "ht = (hashes, rawTitle)" by (cases ht)
    show ?thesis
    proof (cases "length hashes \<le> lv")
      case True
      then show ?thesis using Some ht by (simp add: deeperThan_def)
    next
      case False
      then show ?thesis using Some ht Cons.IH[of "Suc i"] by (simp add: deeperThan_def)
    qed
  qed
qed

lemma headingScan_blank_query:
  assumes "list_ex (\<lambda>line. headingMatch line \<noteq> None) lines"
  shows "\<exists>pre h post hashes rawTitle.
           lines = pre @ h # post
           \<and> list_all (\<lambda>line. headingMatch line = None) pre
           \<and> headingMatch h = Some (hashes, rawTitle)
           \<and> headingScan [] lines i (None, lv, e, mt)
               = (Some (i + length pre), length hashes,
                  (if list_all (deeperThan (length hashes)) post then e
                   else Suc (i + length pre) + length (takeWhile (deeperThan (length hashes)) post)),
                  rawTitle)"
  using assms
proof (induction lines arbitrary: i)
  case Nil
  then show ?case by simp
next
  case (Cons line rest)
  show ?case
  proof (cases "headingMatch line")
    case None
    then have "list_ex (\<lambda>line. headingMatch line \<noteq> None) rest" using Cons.prems by simp
    from Cons.IH[OF this, of "Suc i"]
    obtain pre h post hashes rawTitle where ih:
      "rest = pre @ h # post" "list_all (\<lambda>line. headingMatch line = None) pre"
      "headingMatch h = Some (hashes, rawTitle)"
      "headingScan [] rest (Suc i) (None, lv, e, mt)
         = (Some (Suc i + length pre), length hashes,
            (if list_all (deeperThan (length hashes)) post then e
             else Suc (Suc i + length pre) + length (takeWhile (deeperThan (length hashes)) post)),
            rawTitle)"
      by blast
    have "line # rest = (line # pre) @ h # post" using ih(1) by simp
    moreover have "list_all (\<lambda>line. headingMatch line = None) (line # pre)" using ih(2) None by simp
    moreover have "headingScan [] (line # rest) i (None, lv, e, mt)
        = (Some (i + length (line # pre)), length hashes,
            (if list_all (deeperThan (length hashes)) post then e
             else Suc (i + length (line # pre)) + length (takeWhile (deeperThan (length hashes)) post)),
            rawTitle)"
      using None ih(4) by simp
    ultimately show ?thesis using ih(3) by blast
  next
    case (Some ht)
    obtain hashes rawTitle where ht: "ht = (hashes, rawTitle)" by (cases ht)
    have "headingScan [] (line # rest) i (None, lv, e, mt)
            = (Some (i + length ([]::string list)), length hashes,
                (if list_all (deeperThan (length hashes)) rest then e
                 else Suc (i + length ([]::string list)) + length (takeWhile (deeperThan (length hashes)) rest)),
                rawTitle)"
      using Some ht headingScan_started[of "[]" rest "Suc i" i "length hashes" e rawTitle]
      by (simp add: includesStr_empty)
    moreover have "line # rest = [] @ line # rest" by simp
    moreover have "list_all (\<lambda>line. headingMatch line = None) []" by simp
    moreover have "headingMatch line = Some (hashes, rawTitle)" using Some ht by simp
    ultimately show ?thesis
      by (intro exI[of _ "[]"] exI[of _ line] exI[of _ rest] exI[of _ hashes]
            exI[of _ rawTitle]) simp
  qed
qed

lemma map_filter_all_None:
  "list_all (\<lambda>x. f x = None) xs \<Longrightarrow> List.map_filter f xs = []"
  by (induction xs) (simp_all add: List.map_filter_simps)

lemma map_filter_append':
  "List.map_filter f (xs @ ys) = List.map_filter f xs @ List.map_filter f ys"
  by (simp add: List.map_filter_def)

section \<open>Claim C10: a blank title\<close>

text \<open>
  C10. For every loaded document whose body has at least one heading line, and every title
  that is empty or made of white space only, \<open>extractSection\<close> does not fail with
  \<open>SectionNotFound\<close>, whatever the page and the budget: the normalized query is empty,
  the first heading of the document is matched, and its section is returned. The section
  is the text of \<open>firstHeadingSection\<close>, trimmed and paginated: the lookup returns the
  page asked for, with the number of pages, under the title of the first heading, or
  \<open>PageOutOfRange\<close> when there is no such page; there is always a page 1, and the
  section begins with a heading line.
\<close>

theorem C10_blank_title:
  assumes "loadedPDFs pdfId = Some pdf"
    and "list_ex (\<lambda>line. headingMatch line \<noteq> None) (splitOn [NL] (pdf_markdown pdf))"
    and "list_all isWhiteSpace sectionTitle"
  shows "(\<forall>t s. extractSection loadedPDFs pdfId sectionTitle pageNo charsPerPage
                  \<noteq> Inl (SectionNotFound t s))
       \<and> extractSection loadedPDFs pdfId sectionTitle pageNo charsPerPage
           = (let pages = paginateContent
                    (trim (join [NL] (firstHeadingSection (splitOn [NL] (pdf_markdown pdf)))))
                    charsPerPage
              in if pageNo < 1 \<or> length pages < pageNo
                 then Inl (PageOutOfRange pageNo (length pages))
                 else Inr \<lparr>sp_page = pageNo, sp_totalPages = length pages,
                           sp_content = pages ! (pageNo - 1),
                           sp_section = hd (findSimilarSections (pdf_markdown pdf) sectionTitle)\<rparr>)
       \<and> 1 \<le> length (paginateContent
                        (trim (join [NL] (firstHeadingSection (splitOn [NL] (pdf_markdown pdf)))))
                        charsPerPage)
       \<and> headingMatch (hd (firstHeadingSection (splitOn [NL] (pdf_markdown pdf)))) \<noteq> None"
proof -
  let ?lines = "splitOn [NL] (pdf_markdown pdf)"
  have nq: "trim (toLowerCase sectionTitle) = []" using assms(3) by (rule trim_whiteSpace)
  obtain pre h post hashes rawTitle where sc:
    "?lines = pre @ h # post" "list_all (\<lambda>line. headingMatch line = None) pre"
    "headingMatch h = Some (hashes, rawTitle)"
    "headingScan [] ?lines 0 (None, 0, length ?lines, [])
       = (Some (0 + length pre), length hashes,
          (if list_all (deeperThan (length hashes)) post then length ?lines
           else Suc (0 + length pre) + length (takeWhile (deeperThan (length hashes)) post)),
          rawTitle)"
    using headingScan_blank_query[OF assms(2), of 0 0 "length ?lines" "[]"] by blast
  let ?P = "deeperThan (length hashes)"
  let ?e = "if list_all ?P post then length ?lines else Suc (0 + length pre) + length (takeWhile ?P post)"
  have dw: "dropWhile (\<lambda>line. headingMatch line = None) ?lines = h # post"
    using sc(2,3) by (simp add: sc(1) dropWhile_append2 list_all_iff)
  have fhs: "firstHeadingSection ?lines = h # takeWhile ?P post"
    by (simp add: firstHeadingSection_def dw sc(3))
  have tk: "take (?e - length pre - 1) post = takeWhile ?P post"
  proof (cases "list_all ?P post")
    case True
    then have tw: "takeWhile ?P post = post" by (simp add: list_all_iff)
    have "take (?e - length pre - 1) post = post" using True by (simp add: sc(1))
    then show ?thesis by (simp only: tw)
  next
    case False
    have "takeWhile ?P post = take (length (takeWhile ?P post)) post"
      by (metis takeWhile_eq_take)
    then show ?thesis using False by simp
  qed
  have "length pre < ?e" by (simp add: sc(1))
  then have "take (?e - length pre) (drop (length pre) ?lines) = h # take (?e - length pre - 1) post"
    by (simp add: sc(1) take_Cons')
  then have sect: "take (?e - length pre) (drop (length pre) ?lines) = firstHeadingSection ?lines"
    by (simp only: tk fhs)
  let ?full = "trim (join [NL] (firstHeadingSection ?lines))"
  obtain hr where hr: "h = HASH # hr" using headingMatch_starts_with_hash[OF sc(3)] by blast
  obtain jr where "join [NL] (firstHeadingSection ?lines) = HASH # jr"
    using hr fhs by (cases "takeWhile ?P post") auto
  then obtain fr where full: "?full = HASH # fr"
    using trim_keeps_head[OF not_whiteSpace_hash] by metis
  have pages: "paginateContent ?full charsPerPage \<noteq> []"
    unfolding full by (rule paginateContent_nonempty) simp
  then have len: "1 \<le> length (paginateContent ?full charsPerPage)"
    by (simp add: Suc_le_eq)
  have title: "hd (findSimilarSections (pdf_markdown pdf) sectionTitle) = rawTitle"
    using sc(1,2,3) by (simp add: findSimilarSections_def map_filter_append' map_filter_all_None
          List.map_filter_simps)
  have ex: "extractSection loadedPDFs pdfId sectionTitle pageNo charsPerPage
           = (let pages = paginateContent ?full charsPerPage
              in if pageNo < 1 \<or> length pages < pageNo
                 then Inl (PageOutOfRange pageNo (length pages))
                 else Inr \<lparr>sp_page = pageNo, sp_totalPages = length pages,
                           sp_content = pages ! (pageNo - 1),
                           sp_section = hd (findSimilarSections (pdf_markdown pdf) sectionTitle)\<rparr>)"
    using assms(1) nq sc(4) sect title
    by (simp add: extractSection_def Let_def)
  have nf: "extractSection loadedPDFs pdfId sectionTitle pageNo charsPerPage \<noteq> Inl (SectionNotFound t s)" for t s
    unfolding ex by (simp add: Let_def)
  have hd: "headingMatch (hd (firstHeadingSection ?lines)) \<noteq> None"
    using fhs sc(3) by simp
  from nf ex len hd show ?thesis by blast
qed

text \<open>
  In a document with the headings \<open>Alpha\<close>, \<open>Beta\<close> (deeper) and \<open>Gamma\<close>, the
  title of two spaces yields the section of \<open>Alpha\<close>, which includes \<open>Beta\<close> and
  ends before \<open>Gamma\<close>.
\<close>

theorem C10_blank_title_witness:
  "chaptersRegistry ''doc'' = Some (samplePDF\<lparr>pdf_markdown := chaptersBody\<rparr>)
   \<and> list_ex (\<lambda>line. headingMatch line \<noteq> None) (splitOn [NL] chaptersBody)
   \<and> list_all isWhiteSpace ''  ''
   \<and> firstHeadingSection (splitOn [NL] chaptersBody) = [''# Alpha'', ''baac'', ''## Beta'', ''aa'']
   \<and> extractSection chaptersRegistry ''doc'' ''  '' 1 4000
       = Inr \<lparr>sp_page = 1, sp_totalPages = 1,
              sp_content = ''# Alpha\<newline>baac\<newline>## Beta\<newline>aa'', sp_section = ''Alpha''\<rparr>"
proof -
  have a: "chaptersRegistry ''doc'' = Some (samplePDF\<lparr>pdf_markdown := chaptersBody\<rparr>)"
    by (simp add: chaptersRegistry_def)
  have b: "list_ex (\<lambda>line. headingMatch line \<noteq> None)
             (splitOn [NL] (pdf_markdown (samplePDF\<lparr>pdf_markdown := chaptersBody\<rparr>)))"
    by code_simp
  have b': "list_ex (\<lambda>line. headingMatch line \<noteq> None) (splitOn [NL] chaptersBody)"
    by code_simp
  have c: "list_all isWhiteSpace ''  ''" by code_simp
  have f: "firstHeadingSection (splitOn [NL] chaptersBody) = [''# Alpha'', ''baac'', ''## Beta'', ''aa'']"
    by code_simp
  have v: "(let pages = paginateContent
                    (trim (join [NL] (firstHeadingSection
                       (splitOn [NL] (pdf_markdown (samplePDF\<lparr>pdf_markdown := chaptersBody\<rparr>))))))
                    4000
            in if (1::nat) < 1 \<or> length pages < 1
               then Inl (PageOutOfRange 1 (length pages))
               else Inr \<lparr>sp_page = 1, sp_totalPages = length pages,
                         sp_content = pages ! (1 - 1),
                         sp_section = hd (findSimilarSections
                            (pdf_markdown (samplePDF\<lparr>pdf_markdown := chaptersBody\<rparr>)) ''  '')\<rparr>)
           = Inr \<lparr>sp_page = 1, sp_totalPages = 1,
              sp_content = ''# Alpha\<newline>baac\<newline>## Beta\<newline>aa'', sp_section = ''Alpha''\<rparr>"
    by code_simp
  have "extractSection chaptersRegistry ''doc'' ''  '' 1 4000
       = Inr \<lparr>sp_page = 1, sp_totalPages = 1,
              sp_content = ''# Alpha\<newline>baac\<newline>## Beta\<newline>aa'', sp_section = ''Alpha''\<rparr>"
    using C10_blank_title[where loadedPDFs = chaptersRegistry and pdfId = "''doc''"
        and sectionTitle = "''  ''" and pageNo = 1 and charsPerPage = 4000, OF a b c]
    by (simp only: v)
  with a b' c f show ?thesis by blast
qed

section \<open>Facts about lines and headings\<close>















section \<open>Claim C7: the section of a match\<close>




end
